theory Spec2Isabelle
  imports Main "HOL-Library.Word"
begin

section \<open>JavaScript strings\<close>

text \<open>
  A JavaScript string is a sequence of 16-bit UTF-16 code units. \<open>split\<close>, \<open>includes\<close>,
  \<open>trim\<close>, \<open>startsWith\<close>, \<open>endsWith\<close> and a regular expression without the \<open>u\<close> flag
  all work on code units, so a string is modelled as a list of 16-bit words.
\<close>

type_synonym jschar = "16 word"
type_synonym jsstring = "jschar list"

definition js :: "string \<Rightarrow> jsstring" where
  \<comment> \<open>an ASCII literal as a JavaScript string\<close>
  "js s = map of_char s"

definition NL :: jschar where "NL = 0x0A"
definition PIPE :: jschar where "PIPE = 0x7C"
definition DASH :: jschar where "DASH = 0x2D"
definition COLON :: jschar where "COLON = 0x3A"
definition SPACE :: jschar where "SPACE = 0x20"

definition isWhiteSpace :: "jschar \<Rightarrow> bool" where
  \<comment> \<open>ECMAScript WhiteSpace and LineTerminator: what \<open>trim\<close> strips and \<open>\s\<close> matches\<close>
  "isWhiteSpace c \<longleftrightarrow>
     c = 0x09 \<or> c = 0x0A \<or> c = 0x0B \<or> c = 0x0C \<or> c = 0x0D \<or> c = 0x20 \<or> c = 0xA0 \<or>
     c = 0x1680 \<or> (0x2000 \<le> c \<and> c \<le> 0x200A) \<or> c = 0x2028 \<or> c = 0x2029 \<or>
     c = 0x202F \<or> c = 0x205F \<or> c = 0x3000 \<or> c = 0xFEFF"

definition includesChar :: "jsstring \<Rightarrow> jschar \<Rightarrow> bool" where
  \<comment> \<open>\<open>s.includes(c)\<close> for a one-character needle\<close>
  "includesChar s c \<longleftrightarrow> c \<in> set s"

fun split :: "jschar \<Rightarrow> jsstring \<Rightarrow> jsstring list" where
  \<comment> \<open>\<open>s.split(c)\<close> for a one-character separator: never the empty list, so the first
      case below is never taken\<close>
  "split c [] = [[]]"
| "split c (x # xs) =
     (if x = c then [] # split c xs
      else (case split c xs of [] \<Rightarrow> [[x]] | w # ws \<Rightarrow> (x # w) # ws))"

fun join :: "jschar \<Rightarrow> jsstring list \<Rightarrow> jsstring" where
  \<comment> \<open>\<open>lines.join(c)\<close>\<close>
  "join c [] = []"
| "join c [l] = l"
| "join c (l # ls) = l @ c # join c ls"

definition trim :: "jsstring \<Rightarrow> jsstring" where
  "trim s = rev (dropWhile isWhiteSpace (rev (dropWhile isWhiteSpace s)))"

definition startsWith :: "jsstring \<Rightarrow> jschar \<Rightarrow> bool" where
  "startsWith s c \<longleftrightarrow> (case s of [] \<Rightarrow> False | x # _ \<Rightarrow> x = c)"

definition endsWith :: "jsstring \<Rightarrow> jschar \<Rightarrow> bool" where
  "endsWith s c \<longleftrightarrow> (case rev s of [] \<Rightarrow> False | x # _ \<Rightarrow> x = c)"

datatype error = RangeError | TypeError | SyntaxError | RenderError

definition repeat :: "jsstring \<Rightarrow> int \<Rightarrow> error + jsstring" where
  \<comment> \<open>\<open>s.repeat(n)\<close> throws a RangeError on a negative count\<close>
  "repeat s n = (if n < 0 then Inl RangeError else Inr (concat (replicate (nat n) s)))"

section \<open>The markdown preprocessor\<close>

text \<open>
  \<open>preprocessMarkdown\<close>, lines 49 to 105 of the markdown parser. The body of the loop is
  cut into the tests and the builders below, one per statement of the source.
\<close>

definition cellContent :: "jsstring \<Rightarrow> jsstring list" where
  \<comment> \<open>lines 67 to 70: \<open>line.split('|').map(trim).filter(s => s.length > 0)\<close>\<close>
  "cellContent line = filter (\<lambda>s. length s > 0) (map trim (split PIPE line))"

definition isEmptyRow :: "jsstring \<Rightarrow> bool" where
  \<comment> \<open>line 71\<close>
  "isEmptyRow line \<longleftrightarrow>
     length (cellContent line) = 0 \<or> list_all (\<lambda>cell. cell = [] \<or> cell = [DASH]) (cellContent line)"

definition skipped :: "jsstring \<Rightarrow> bool" where
  \<comment> \<open>lines 66 to 76: the line is dropped by \<open>continue\<close>\<close>
  "skipped line \<longleftrightarrow> includesChar line PIPE \<and> isEmptyRow line \<and> \<not> includesChar line DASH"

definition sepClass :: "jschar \<Rightarrow> bool" where
  \<comment> \<open>the character class \<open>[\s-:|]\<close>: a class escape next to \<open>-\<close> makes the dash literal\<close>
  "sepClass c \<longleftrightarrow> isWhiteSpace c \<or> c = DASH \<or> c = COLON \<or> c = PIPE"

definition isSeparator :: "jsstring \<Rightarrow> bool" where
  \<comment> \<open>line 80: \<open>/^\s*\|[\s-:|]+\|\s*$/.test(line)\<close>\<close>
  "isSeparator line \<longleftrightarrow>
     (case dropWhile isWhiteSpace line of
        [] \<Rightarrow> False
      | c # r \<Rightarrow> c = PIPE \<and>
          (case dropWhile isWhiteSpace (rev r) of
             [] \<Rightarrow> False
           | d # m \<Rightarrow> d = PIPE \<and> m \<noteq> [] \<and> list_all sepClass m))"

definition separatorRow :: "int \<Rightarrow> error + jsstring" where
  \<comment> \<open>lines 84 and 98: \<open>'| ' + '--- | '.repeat(cols - 1) + '--- |'\<close>\<close>
  "separatorRow cols =
     (case repeat (js ''--- | '') (cols - 1) of
        Inl e \<Rightarrow> Inl e
      | Inr r \<Rightarrow> Inr (js ''| '' @ r @ js ''--- |''))"

definition separatorCols :: "jsstring \<Rightarrow> int" where
  \<comment> \<open>line 83\<close>
  "separatorCols line =
     int (length (filter (\<lambda>s. length (trim s) > 0 \<or> includesChar s DASH) (split PIPE line)))"

definition normalizeLine :: "jsstring \<Rightarrow> error + jsstring" where
  \<comment> \<open>lines 79 to 87: the value of \<open>line\<close> that is pushed\<close>
  "normalizeLine line =
     (if includesChar line PIPE \<and> includesChar line DASH then
        (if isSeparator line then separatorRow (separatorCols line) else Inr line)
      else Inr line)"

definition isTableRow :: "jsstring \<Rightarrow> bool" where
  \<comment> \<open>line 92, without the flag\<close>
  "isTableRow line \<longleftrightarrow>
     startsWith (trim line) PIPE \<and> endsWith (trim line) PIPE \<and> \<not> includesChar line DASH"

definition headerCols :: "jsstring \<Rightarrow> int" where
  \<comment> \<open>line 97\<close>
  "headerCols line = int (length (filter (\<lambda>s. length (trim s) > 0) (split PIPE line)))"

definition nextNeedsSeparator :: "jsstring list \<Rightarrow> bool" where
  \<comment> \<open>lines 94 to 96: \<open>nextLine\<close> is \<open>originalLines[i + 1]\<close>, undefined past the end,
      and the empty string is falsy\<close>
  "nextNeedsSeparator rest \<longleftrightarrow>
     (case rest of
        [] \<Rightarrow> False
      | nextLine # _ \<Rightarrow> nextLine \<noteq> [] \<and> \<not> (includesChar nextLine PIPE \<and> includesChar nextLine DASH))"

fun processLines :: "bool \<Rightarrow> jsstring list \<Rightarrow> error + jsstring list" where
  \<comment> \<open>the loop of lines 62 to 102 from index \<open>i\<close> on: the flag \<open>firstTableRowSeen\<close>, the
      lines \<open>originalLines[i..]\<close>, and the lines pushed to \<open>fixedLines\<close> from here on\<close>
  "processLines seen [] = Inr []"
| "processLines seen (l # rest) =
     (if skipped l then processLines seen rest
      else case normalizeLine l of
        Inl e \<Rightarrow> Inl e
      | Inr line \<Rightarrow>
          if isTableRow line \<and> \<not> seen then
            (if nextNeedsSeparator rest then
               (case separatorRow (headerCols line) of
                  Inl e \<Rightarrow> Inl e
                | Inr separator \<Rightarrow>
                    (case processLines True rest of
                       Inl e \<Rightarrow> Inl e
                     | Inr out \<Rightarrow> Inr (line # separator # out)))
             else
               (case processLines True rest of
                  Inl e \<Rightarrow> Inl e
                | Inr out \<Rightarrow> Inr (line # out)))
          else
            (case processLines seen rest of
               Inl e \<Rightarrow> Inl e
             | Inr out \<Rightarrow> Inr (line # out)))"

definition preprocessMarkdown :: "jsstring \<Rightarrow> error + jsstring" where
  "preprocessMarkdown text =
     (if \<not> includesChar text PIPE then Inr text
      else case processLines False (split NL text) of
        Inl e \<Rightarrow> Inl e
      | Inr fixedLines \<Rightarrow> Inr (join NL fixedLines))"

text \<open>
  The definitions below restate the loop for the proofs: the text of a separator row of
  \<open>n + 1\<close> columns, the pushed line as a total function, the pushed lines as a total
  function, and the language of the regular expression of line 80. Lemmas
  \<open>separatorRow_ok\<close>, \<open>normalizeLine_ok\<close>, \<open>processLines_ok\<close> and \<open>isSeparator_regex\<close>
  relate them to the definitions above.
\<close>

definition separatorText :: "nat \<Rightarrow> jsstring" where
  "separatorText n = js ''| '' @ concat (replicate n (js ''--- | '')) @ js ''--- |''"

definition normalized :: "jsstring \<Rightarrow> jsstring" where
  "normalized line =
     (if includesChar line PIPE \<and> includesChar line DASH \<and> isSeparator line
      then separatorText (nat (separatorCols line - 1)) else line)"

fun pushedLines :: "bool \<Rightarrow> jsstring list \<Rightarrow> jsstring list" where
  "pushedLines seen [] = []"
| "pushedLines seen (l # rest) =
     (if skipped l then pushedLines seen rest
      else if isTableRow (normalized l) \<and> \<not> seen then
        normalized l #
          (if nextNeedsSeparator rest then [separatorText (nat (headerCols (normalized l) - 1))]
           else [])
          @ pushedLines True rest
      else normalized l # pushedLines seen rest)"

definition matchesSeparatorRegex :: "jsstring \<Rightarrow> bool" where
  \<comment> \<open>\<open>^\s*\|[\s-:|]+\|\s*$\<close> read as a language: the line is \<open>a | b | c\<close> with \<open>a\<close> and
      \<open>c\<close> white space and \<open>b\<close> a non-empty run of class characters\<close>
  "matchesSeparatorRegex line \<longleftrightarrow>
     (\<exists>a b c. line = a @ [PIPE] @ b @ [PIPE] @ c \<and> list_all isWhiteSpace a \<and>
        b \<noteq> [] \<and> list_all sepClass b \<and> list_all isWhiteSpace c)"

definition isSeparatorRow :: "jsstring \<Rightarrow> bool" where
  \<comment> \<open>a separator row: the test of lines 79 to 81 under which a line is rewritten\<close>
  "isSeparatorRow line \<longleftrightarrow> includesChar line PIPE \<and> includesChar line DASH \<and> isSeparator line"

section \<open>The markdown renderer\<close>

text \<open>
  \<open>MarkdownParser.parse\<close>, lines 147 to 215. The argument is typed as a string, and the
  method tests it for null, undefined and other values first. A value that is not a
  string is given by what its conversion to a string does: it returns a text or it
  throws (an object without a usable \<open>toString\<close>), the same way each time it runs. The
  renderer of markdown-it and the sanitizer of DOMPurify are libraries outside the
  repository: they are fields of the parser here, and either may throw.
\<close>

datatype jsvalue =
    Null
  | Undefined
  | NonString "error + jsstring"  \<comment> \<open>a value that is not a string, with what converting
      it to a string gives\<close>
  | String jsstring

record markdownParser =
  sanitize :: bool
  md_render :: "jsstring \<Rightarrow> error + jsstring"
  DOMPurify_sanitize :: "jsstring \<Rightarrow> error + jsstring"

definition escapeChar :: "jschar \<Rightarrow> jsstring" where
  \<comment> \<open>the text of a text node as \<open>innerHTML\<close> serialises it\<close>
  "escapeChar c =
     (if c = 0x26 then js ''&amp;''
      else if c = 0x3C then js ''&lt;''
      else if c = 0x3E then js ''&gt;''
      else if c = 0xA0 then js ''&nbsp;''
      else [c])"

definition escapeHtml :: "jsstring \<Rightarrow> jsstring" where
  \<comment> \<open>lines 217 to 221: \<open>div.textContent = text; return div.innerHTML\<close>\<close>
  "escapeHtml text = concat (map escapeChar text)"

definition tryBlock :: "markdownParser \<Rightarrow> jsvalue \<Rightarrow> error + jsstring" where
  \<comment> \<open>lines 149 to 209, the body of \<open>try\<close>\<close>
  "tryBlock p markdown =
     (case markdown of
        Null \<Rightarrow> Inr []
      | Undefined \<Rightarrow> Inr []
      | NonString converted \<Rightarrow>
          (case converted of Inl e \<Rightarrow> Inl e | Inr s \<Rightarrow> Inr (escapeHtml s))
      | String s \<Rightarrow>
          if trim s = [] then Inr []
          else case preprocessMarkdown s of
            Inl e \<Rightarrow> Inl e
          | Inr preprocessedMarkdown \<Rightarrow>
              (case md_render p preprocessedMarkdown of
                 Inl e \<Rightarrow> Inl e
               | Inr html \<Rightarrow> if sanitize p then DOMPurify_sanitize p html else Inr html))"

definition textOf :: "jsvalue \<Rightarrow> error + jsstring" where
  \<comment> \<open>what \<open>div.textContent = markdown\<close> stores: null and undefined give the empty text,
      any other value is converted to a string, which may throw\<close>
  "textOf markdown =
     (case markdown of
        Null \<Rightarrow> Inr []
      | Undefined \<Rightarrow> Inr []
      | NonString converted \<Rightarrow> converted
      | String s \<Rightarrow> Inr s)"


definition parse :: "markdownParser \<Rightarrow> jsvalue \<Rightarrow> error + jsstring" where
  \<comment> \<open>lines 147 to 215: the \<open>catch\<close> returns the escaped argument, and line 213 is
      outside any \<open>try\<close>\<close>
  "parse p markdown =
     (case tryBlock p markdown of
        Inr html \<Rightarrow> Inr html
      | Inl e \<Rightarrow>
          (case textOf markdown of
             Inl e' \<Rightarrow> Inl e'
           | Inr text \<Rightarrow> Inr (escapeHtml text)))"

section \<open>JSON values and their text\<close>

text \<open>
  The records that are saved are values that JSON can represent: null, booleans, numbers,
  strings, arrays and objects. A number is an integer between \<open>-2^53\<close> and \<open>2^53 - 1\<close>,
  the signed value of a 54-bit word: each is a double that \<open>JSON.stringify\<close> prints in
  full, without an exponent. An object is the list of its properties in the order
  JavaScript enumerates them, with distinct keys: the keys that are array indices first,
  in ascending order, then the other keys in insertion order.
  \<open>JSON_stringify\<close> follows ECMAScript \<open>JSON.stringify\<close> without indentation, with
  \<open>QuoteJSONString\<close> for strings and keys; \<open>utf8Length\<close> is the size of
  \<open>new Blob([text])\<close>, the length of the UTF-8 encoding.
\<close>

datatype json =
    JNull
  | JBool bool
  | JNum "54 word"
  | JStr jsstring
  | JArr "json list"
  | JObj "(jsstring \<times> json) list"

type_synonym props = "(jsstring \<times> json) list"

fun digits :: "nat \<Rightarrow> jsstring" where
  "digits n = (if n < 10 then [of_nat (48 + n)] else digits (n div 10) @ [of_nat (48 + n mod 10)])"

declare digits.simps [simp del]

definition numberToString :: "54 word \<Rightarrow> jsstring" where
  \<comment> \<open>the decimal text of the signed value\<close>
  "numberToString i =
     (if sint i < 0 then 0x2D # digits (nat (- sint i)) else digits (nat (sint i)))"

definition isHighSurrogate :: "jschar \<Rightarrow> bool" where
  "isHighSurrogate c \<longleftrightarrow> 0xD800 \<le> c \<and> c \<le> 0xDBFF"

definition isLowSurrogate :: "jschar \<Rightarrow> bool" where
  "isLowSurrogate c \<longleftrightarrow> 0xDC00 \<le> c \<and> c \<le> 0xDFFF"

definition hexDigit :: "nat \<Rightarrow> jschar" where
  "hexDigit d = (if d < 10 then of_nat (48 + d) else of_nat (87 + d))"

definition unicodeEscape :: "jschar \<Rightarrow> jsstring" where
  \<comment> \<open>\<open>\uXXXX\<close> with lower-case hexadecimal digits\<close>
  "unicodeEscape c =
     [0x5C, 0x75, hexDigit (unat c div 4096), hexDigit (unat c div 256 mod 16),
      hexDigit (unat c div 16 mod 16), hexDigit (unat c mod 16)]"

fun quoteChars :: "jsstring \<Rightarrow> jsstring" where
  "quoteChars [] = []"
| "quoteChars (c # cs) =
     (if c = 0x08 then [0x5C, 0x62] @ quoteChars cs
      else if c = 0x09 then [0x5C, 0x74] @ quoteChars cs
      else if c = 0x0A then [0x5C, 0x6E] @ quoteChars cs
      else if c = 0x0C then [0x5C, 0x66] @ quoteChars cs
      else if c = 0x0D then [0x5C, 0x72] @ quoteChars cs
      else if c = 0x22 then [0x5C, 0x22] @ quoteChars cs
      else if c = 0x5C then [0x5C, 0x5C] @ quoteChars cs
      else if c < 0x20 then unicodeEscape c @ quoteChars cs
      else if isHighSurrogate c then
        (case cs of
           [] \<Rightarrow> unicodeEscape c
         | d # ds \<Rightarrow> if isLowSurrogate d then c # d # quoteChars ds
                     else unicodeEscape c @ quoteChars cs)
      else if isLowSurrogate c then unicodeEscape c @ quoteChars cs
      else c # quoteChars cs)"

definition quoteJSONString :: "jsstring \<Rightarrow> jsstring" where
  "quoteJSONString s = 0x22 # quoteChars s @ [0x22]"

fun JSON_stringify :: "json \<Rightarrow> jsstring"
  and stringifyElements :: "json list \<Rightarrow> jsstring"
  and stringifyProperties :: "props \<Rightarrow> jsstring" where
  "JSON_stringify JNull = js ''null''"
| "JSON_stringify (JBool b) = (if b then js ''true'' else js ''false'')"
| "JSON_stringify (JNum i) = numberToString i"
| "JSON_stringify (JStr s) = quoteJSONString s"
| "JSON_stringify (JArr xs) = 0x5B # stringifyElements xs @ [0x5D]"
| "JSON_stringify (JObj ps) = 0x7B # stringifyProperties ps @ [0x7D]"
| "stringifyElements [] = []"
| "stringifyElements [x] = JSON_stringify x"
| "stringifyElements (x # y # xs) = JSON_stringify x @ 0x2C # stringifyElements (y # xs)"
| "stringifyProperties [] = []"
| "stringifyProperties [(k, v)] = quoteJSONString k @ 0x3A # JSON_stringify v"
| "stringifyProperties ((k, v) # p # ps) =
     quoteJSONString k @ 0x3A # JSON_stringify v @ 0x2C # stringifyProperties (p # ps)"

fun utf8Length :: "jsstring \<Rightarrow> nat" where
  \<comment> \<open>one to three bytes for a code unit, four for a surrogate pair, three for a lone
      surrogate (it is replaced by U+FFFD)\<close>
  "utf8Length [] = 0"
| "utf8Length (c # cs) =
     (if c < 0x80 then 1 + utf8Length cs
      else if c < 0x800 then 2 + utf8Length cs
      else if isHighSurrogate c then
        (case cs of
           [] \<Rightarrow> 3
         | d # ds \<Rightarrow> if isLowSurrogate d then 4 + utf8Length ds else 3 + utf8Length cs)
      else 3 + utf8Length cs)"

definition byteSize :: "json \<Rightarrow> nat" where
  \<comment> \<open>lines 333 and 334: \<open>new Blob([JSON.stringify(obj)]).size\<close>\<close>
  "byteSize v = utf8Length (JSON_stringify v)"

subsection \<open>Objects\<close>

definition getProp :: "jsstring \<Rightarrow> props \<Rightarrow> json option" where
  \<comment> \<open>\<open>obj[k]\<close>, None for undefined\<close>
  "getProp k ps = map_of ps k"

definition isDigit :: "jschar \<Rightarrow> bool" where
  "isDigit c \<longleftrightarrow> 0x30 \<le> c \<and> c \<le> 0x39"

definition decimalValue :: "jsstring \<Rightarrow> nat" where
  "decimalValue k = foldl (\<lambda>n c. 10 * n + (unat c - 48)) 0 k"

definition arrayIndex :: "jsstring \<Rightarrow> nat option" where
  \<comment> \<open>the index a key stands for: the key is the canonical decimal text of a number
      below \<open>2^32 - 1\<close>\<close>
  "arrayIndex k =
     (if k \<noteq> [] \<and> list_all isDigit k \<and> decimalValue k \<le> 4294967294 \<and>
         digits (decimalValue k) = k
      then Some (decimalValue k) else None)"

definition indexBefore :: "nat \<Rightarrow> jsstring \<times> json \<Rightarrow> bool" where
  \<comment> \<open>the property is listed before a new array index \<open>n\<close>\<close>
  "indexBefore n p \<longleftrightarrow> (case arrayIndex (fst p) of Some m \<Rightarrow> m < n | None \<Rightarrow> False)"

definition insertNew :: "jsstring \<Rightarrow> json \<Rightarrow> props \<Rightarrow> props" where
  \<comment> \<open>a new key: an array index goes to its place among the indices, any other key goes
      last\<close>
  "insertNew k v ps =
     (case arrayIndex k of
        None \<Rightarrow> ps @ [(k, v)]
      | Some n \<Rightarrow> takeWhile (indexBefore n) ps @ (k, v) # dropWhile (indexBefore n) ps)"

definition setProp :: "jsstring \<Rightarrow> json \<Rightarrow> props \<Rightarrow> props" where
  \<comment> \<open>\<open>obj[k] = v\<close>: an existing key keeps its place\<close>
  "setProp k v ps =
     (if k \<in> fst ` set ps then map (\<lambda>(k', v'). if k' = k then (k', v) else (k', v')) ps
      else insertNew k v ps)"

definition indexed :: "json list \<Rightarrow> props" where
  "indexed xs = map (\<lambda>i. (digits i, xs ! i)) [0..<length xs]"

fun ownProps :: "json \<Rightarrow> props" where
  \<comment> \<open>the own enumerable properties that a spread or a rest pattern copies\<close>
  "ownProps (JObj ps) = ps"
| "ownProps (JArr xs) = indexed xs"
| "ownProps (JStr s) = indexed (map (\<lambda>c. JStr [c]) s)"
| "ownProps _ = []"

definition spread :: "props \<Rightarrow> props \<Rightarrow> props" where
  \<comment> \<open>\<open>{ ...target, ...source }\<close>\<close>
  "spread target source = foldl (\<lambda>acc (k, v). setProp k v acc) target source"

fun truthy :: "json \<Rightarrow> bool" where
  "truthy JNull = False"
| "truthy (JBool b) = b"
| "truthy (JNum i) = (i \<noteq> 0)"
| "truthy (JStr s) = (s \<noteq> [])"
| "truthy (JArr _) = True"
| "truthy (JObj _) = True"

section \<open>The local persistence store\<close>

text \<open>
  \<open>localStorage\<close> is a map from keys to texts. The program writes only texts made by
  \<open>JSON.stringify\<close> and reads a text only through its truthiness and \<open>JSON.parse\<close>, so
  a stored text is represented by what \<open>JSON.parse\<close> makes of it: the value it denotes
  (\<open>JSON.parse\<close> inverts \<open>JSON.stringify\<close> on these values), the empty text, or a
  non-empty text that is not JSON. Quota and security exceptions of the browser are not
  part of the model.
\<close>

datatype item = JsonText json | EmptyText | InvalidText

type_synonym storage = "jsstring \<Rightarrow> item option"

definition storageKey :: "jsstring \<Rightarrow> jsstring" where
  "storageKey chatflowid = chatflowid @ js ''_EXTERNAL''"

fun JSON_parse :: "item \<Rightarrow> error + json" where
  "JSON_parse (JsonText v) = Inr v"
| "JSON_parse EmptyText = Inl SyntaxError"
| "JSON_parse InvalidText = Inl SyntaxError"

definition MAX_HISTORY :: nat where "MAX_HISTORY = 30"
definition MAX_BYTES :: nat where "MAX_BYTES = 2000"

definition heavyFields :: "jsstring list" where
  "heavyFields = [js ''agentReasoning'', js ''sourceDocuments'', js ''artifacts'']"

definition stripHeavy :: "json \<Rightarrow> error + json" where
  \<comment> \<open>lines 327 and 328: the rest pattern throws a TypeError on null and copies the own
      properties of any other value\<close>
  "stripHeavy msg =
     (case msg of
        JNull \<Rightarrow> Inl TypeError
      | _ \<Rightarrow> Inr (JObj (filter (\<lambda>(k, v). k \<notin> set heavyFields) (ownProps msg))))"

fun mapResult :: "('a \<Rightarrow> error + 'b) \<Rightarrow> 'a list \<Rightarrow> error + 'b list" where
  \<comment> \<open>\<open>xs.map(f)\<close> where \<open>f\<close> may throw\<close>
  "mapResult f [] = Inr []"
| "mapResult f (x # xs) =
     (case f x of
        Inl e \<Rightarrow> Inl e
      | Inr y \<Rightarrow> (case mapResult f xs of Inl e \<Rightarrow> Inl e | Inr ys \<Rightarrow> Inr (y # ys)))"

definition sliceLast :: "nat \<Rightarrow> 'a list \<Rightarrow> 'a list" where
  \<comment> \<open>\<open>xs.slice(-n)\<close>\<close>
  "sliceLast n xs = drop (length xs - n) xs"

definition trimmedRecord :: "jsstring \<Rightarrow> props \<Rightarrow> error + props" where
  \<comment> \<open>lines 320 to 331: the object \<open>obj\<close> that is measured\<close>
  "trimmedRecord chatId saveObj =
     (let obj = (if chatId \<noteq> [] then setProp (js ''chatId'') (JStr chatId) saveObj else saveObj)
      in case getProp (js ''chatHistory'') obj of
           Some (JArr history) \<Rightarrow>
             (case mapResult stripHeavy (sliceLast MAX_HISTORY history) of
                Inl e \<Rightarrow> Inl e
              | Inr trimmed \<Rightarrow> Inr (setProp (js ''chatHistory'') (JArr trimmed) obj))
         | _ \<Rightarrow> Inr obj)"

definition mergedRecord :: "json \<Rightarrow> props \<Rightarrow> props" where
  \<comment> \<open>lines 346 and 347\<close>
  "mergedRecord parsed obj =
     (let merged = spread (spread [] (ownProps parsed)) obj
      in case getProp (js ''chatHistory'') obj of
           Some h \<Rightarrow> if truthy h then setProp (js ''chatHistory'') h merged else merged
         | None \<Rightarrow> merged)"

definition setLocalStorageChatflow ::
  "jsstring \<Rightarrow> jsstring \<Rightarrow> props \<Rightarrow> storage \<Rightarrow> error + storage" where
  \<comment> \<open>lines 316 to 357: the storage after the call, or the exception thrown by line 327\<close>
  "setLocalStorageChatflow chatflowid chatId saveObj st =
     (case trimmedRecord chatId saveObj of
        Inl e \<Rightarrow> Inl e
      | Inr obj \<Rightarrow>
          if byteSize (JObj obj) > MAX_BYTES then Inr st
          else case st (storageKey chatflowid) of
            None \<Rightarrow> Inr (st(storageKey chatflowid \<mapsto> JsonText (JObj obj)))
          | Some EmptyText \<Rightarrow> Inr (st(storageKey chatflowid \<mapsto> JsonText (JObj obj)))
          | Some chatDetails \<Rightarrow>
              (case JSON_parse chatDetails of
                 Inl e \<Rightarrow>
                   Inr (st(storageKey chatflowid \<mapsto> JsonText (JObj [(js ''chatId'', JStr chatId)])))
               | Inr parsed \<Rightarrow>
                   Inr (st(storageKey chatflowid \<mapsto> JsonText (JObj (mergedRecord parsed obj))))))"

definition getLocalStorageChatflow :: "jsstring \<Rightarrow> storage \<Rightarrow> json" where
  \<comment> \<open>lines 359 to 367\<close>
  "getLocalStorageChatflow chatflowid st =
     (case st (storageKey chatflowid) of
        None \<Rightarrow> JObj []
      | Some EmptyText \<Rightarrow> JObj []
      | Some chatDetails \<Rightarrow>
          (case JSON_parse chatDetails of Inl e \<Rightarrow> JObj [] | Inr parsed \<Rightarrow> parsed))"

definition leadOf :: "json \<Rightarrow> error + json option" where
  \<comment> \<open>\<open>parsedChatDetails.lead\<close>: a TypeError on null, undefined on a value without the key\<close>
  "leadOf parsed =
     (case parsed of
        JNull \<Rightarrow> Inl TypeError
      | JObj ps \<Rightarrow> Inr (getProp (js ''lead'') ps)
      | _ \<Rightarrow> Inr None)"

definition removeLocalStorageChatHistory :: "jsstring \<Rightarrow> storage \<Rightarrow> storage" where
  \<comment> \<open>lines 369 to 385\<close>
  "removeLocalStorageChatHistory chatflowid st =
     (case st (storageKey chatflowid) of
        None \<Rightarrow> st
      | Some EmptyText \<Rightarrow> st
      | Some chatDetails \<Rightarrow>
          (case JSON_parse chatDetails of
             Inl e \<Rightarrow> st
           | Inr parsedChatDetails \<Rightarrow>
               (case leadOf parsedChatDetails of
                  Inl e \<Rightarrow> st
                | Inr None \<Rightarrow> st(storageKey chatflowid := None)
                | Inr (Some lead) \<Rightarrow>
                    if truthy lead then
                      (st(storageKey chatflowid := None))
                        (storageKey chatflowid \<mapsto> JsonText (JObj [(js ''lead'', lead)]))
                    else st(storageKey chatflowid := None))))"

definition spec_stripEntry :: "json \<Rightarrow> json" where
  \<comment> \<open>an entry as it is stored: the object of its own properties other than the three
      heavy fields (lemma \<open>spec_stripEntry_object\<close> for an entry that is an object)\<close>
  "spec_stripEntry entry = JObj (filter (\<lambda>(k, v). k \<notin> set heavyFields) (ownProps entry))"

text \<open>
  What the specification says a saved record is, field by field: the chat identifier is
  merged in (it replaces the field \<open>chatId\<close>, or is added as the last field), a
  \<open>chatHistory\<close> that is an array is cut to its last 30 entries, each without the fields
  \<open>agentReasoning\<close>, \<open>sourceDocuments\<close> and \<open>artifacts\<close>, and every other field is
  unchanged.
\<close>

definition spec_lastThirty :: "'a list \<Rightarrow> 'a list" where
  "spec_lastThirty entries = rev (take 30 (rev entries))"

definition spec_withoutHeavyFields :: "json \<Rightarrow> json" where
  "spec_withoutHeavyFields entry =
     (case entry of
        JObj members \<Rightarrow>
          JObj (filter (\<lambda>(name, value). name \<noteq> js ''agentReasoning'' \<and>
                  name \<noteq> js ''sourceDocuments'' \<and> name \<noteq> js ''artifacts'') members)
      | _ \<Rightarrow> entry)"

definition spec_savedField :: "jsstring \<Rightarrow> jsstring \<times> json \<Rightarrow> jsstring \<times> json" where
  "spec_savedField chatId field =
     (if fst field = js ''chatId'' then (fst field, JStr chatId)
      else if fst field = js ''chatHistory'' then
        (fst field,
         case snd field of
           JArr entries \<Rightarrow> JArr (map spec_withoutHeavyFields (spec_lastThirty entries))
         | _ \<Rightarrow> snd field)
      else field)"

definition spec_savedRecord :: "jsstring \<Rightarrow> props \<Rightarrow> props" where
  "spec_savedRecord chatId obj =
     map (spec_savedField chatId) obj @
     (if js ''chatId'' \<in> fst ` set obj then [] else [(js ''chatId'', JStr chatId)])"

fun isObject :: "json \<Rightarrow> bool" where
  "isObject (JObj _) = True"
| "isObject _ = False"

definition keptEntries :: "props \<Rightarrow> json list" where
  \<comment> \<open>the last 30 entries of a \<open>chatHistory\<close> that is an array\<close>
  "keptEntries obj =
     (case map_of obj (js ''chatHistory'') of
        Some (JArr entries) \<Rightarrow> spec_lastThirty entries
      | _ \<Rightarrow> [])"

definition historyBounded :: "props \<Rightarrow> bool" where
  \<comment> \<open>a history that is an array has at most 30 entries\<close>
  "historyBounded ps \<longleftrightarrow>
     (case getProp (js ''chatHistory'') ps of Some (JArr h) \<Rightarrow> length h \<le> MAX_HISTORY | _ \<Rightarrow> True)"

definition storedRecordOk :: "storage \<Rightarrow> jsstring \<Rightarrow> bool" where
  \<comment> \<open>nothing is stored for the conversation, or an object with distinct keys and a
      bounded history\<close>
  "storedRecordOk st chatflowid \<longleftrightarrow>
     (case st (storageKey chatflowid) of
        None \<Rightarrow> True
      | Some (JsonText (JObj ps)) \<Rightarrow> distinct (map fst ps) \<and> historyBounded ps
      | Some _ \<Rightarrow> False)"

definition emptyStorage :: storage where
  \<comment> \<open>a storage without any key\<close>
  "emptyStorage = (\<lambda>key. None)"

definition plainChar :: "jschar \<Rightarrow> bool" where
  \<comment> \<open>an ASCII character that \<open>QuoteJSONString\<close> copies unchanged\<close>
  "plainChar c \<longleftrightarrow> 0x20 \<le> c \<and> c < 0x80 \<and> c \<noteq> 0x22 \<and> c \<noteq> 0x5C"

datatype operation = Save jsstring props | Load | ClearHistory

fun runOperation :: "jsstring \<Rightarrow> storage \<Rightarrow> operation \<Rightarrow> storage" where
  \<comment> \<open>one call on the conversation: a call that throws leaves the storage as it is\<close>
  "runOperation chatflowid st (Save chatId saveObj) =
     (case setLocalStorageChatflow chatflowid chatId saveObj st of Inl e \<Rightarrow> st | Inr st' \<Rightarrow> st')"
| "runOperation chatflowid st Load = st"
| "runOperation chatflowid st ClearHistory = removeLocalStorageChatHistory chatflowid st"

fun wellFormed :: "operation \<Rightarrow> bool" where
  \<comment> \<open>the record of a save is an object: its keys are distinct\<close>
  "wellFormed (Save chatId saveObj) = distinct (map fst saveObj)"
| "wellFormed _ = True"



definition exampleHistoryRecord :: props where
  "exampleHistoryRecord =
     [(js ''chatHistory'',
       JArr [JObj [(js ''message'', JStr (replicate 1900 0x61)), (js ''type'', JStr (js ''apiMessage''))]])]"

definition exampleLeadRecord :: props where
  "exampleLeadRecord =
     [(js ''lead'', JObj [(js ''name'', JStr (js ''Ann'')), (js ''email'', JStr (js ''ann@example.com''))])]"

section \<open>Lemmas on strings\<close>

lemma chars_distinct [simp]:
  "PIPE \<noteq> DASH" "DASH \<noteq> PIPE" "NL \<noteq> PIPE" "PIPE \<noteq> NL" "NL \<noteq> DASH" "DASH \<noteq> NL"
  "\<not> isWhiteSpace PIPE" "\<not> isWhiteSpace DASH" "isWhiteSpace SPACE" "SPACE \<noteq> PIPE" "SPACE \<noteq> DASH"
  "SPACE \<noteq> NL" "PIPE \<noteq> SPACE" "DASH \<noteq> SPACE" "NL \<noteq> SPACE"
  by (simp_all add: PIPE_def DASH_def NL_def SPACE_def isWhiteSpace_def)

lemma split_nonempty [simp]: "split c s \<noteq> []"
  by (induction s) (auto split: list.splits)

lemma split_no_sep: "c \<notin> set s \<Longrightarrow> split c s = [s]"
  by (induction s) (auto split: list.splits)

lemma split_append_sep: "c \<notin> set a \<Longrightarrow> split c (a @ c # b) = a # split c b"
  by (induction a) (auto split: list.splits)

lemma split_member: "x \<in> set s \<Longrightarrow> x \<noteq> c \<Longrightarrow> \<exists>seg \<in> set (split c s). x \<in> set seg"
proof (induction s)
  case Nil then show ?case by simp
next
  case (Cons y ys)
  show ?case
  proof (cases "y = c")
    case True
    with Cons show ?thesis by auto
  next
    case False
    have ne: "split c ys \<noteq> []" by simp
    then obtain h t where ht: "split c ys = h # t" by (cases "split c ys") auto
    show ?thesis
    proof (cases "x = y")
      case True
      with False ht show ?thesis by auto
    next
      case False
      with Cons have "\<exists>seg \<in> set (split c ys). x \<in> set seg" by auto
      with \<open>y \<noteq> c\<close> ht show ?thesis by auto
    qed
  qed
qed

lemma split_segments_no_sep: "seg \<in> set (split c s) \<Longrightarrow> c \<notin> set seg"
proof (induction s arbitrary: seg)
  case Nil then show ?case by simp
next
  case (Cons y ys)
  obtain h t where ht: "split c ys = h # t" by (cases "split c ys") auto
  with Cons show ?case by (auto split: if_splits)
qed

lemma split_segments_subset: "seg \<in> set (split c s) \<Longrightarrow> set seg \<subseteq> set s"
proof (induction s arbitrary: seg)
  case Nil then show ?case by simp
next
  case (Cons y ys)
  obtain h t where ht: "split c ys = h # t" by (cases "split c ys") auto
  with Cons show ?case by (fastforce split: if_splits)
qed

lemma join_split: "join c (split c s) = s"
proof (induction s)
  case Nil then show ?case by simp
next
  case (Cons y ys)
  obtain h t where ht: "split c ys = h # t" by (cases "split c ys") auto
  with Cons show ?case by (cases t) auto
qed

lemma split_join: "ls \<noteq> [] \<Longrightarrow> \<forall>l \<in> set ls. c \<notin> set l \<Longrightarrow> split c (join c ls) = ls"
proof (induction ls rule: join.induct)
  case (1 c) then show ?case by simp
next
  case (2 c l) then show ?case by (simp add: split_no_sep)
next
  case (3 c l v va)
  then show ?case by (simp add: split_append_sep)
qed

lemma set_trim_subset: "set (trim s) \<subseteq> set s"
proof -
  have "set (trim s) = set (dropWhile isWhiteSpace (rev (dropWhile isWhiteSpace s)))"
    by (simp add: trim_def)
  also have "\<dots> \<subseteq> set (rev (dropWhile isWhiteSpace s))"
    by (meson set_dropWhileD subsetI)
  also have "\<dots> \<subseteq> set s"
    using set_dropWhileD by fastforce
  finally show ?thesis .
qed

section \<open>Lemmas on the preprocessor\<close>

lemma js_literals:
  "js ''--- | '' = [DASH, DASH, DASH, SPACE, PIPE, SPACE]"
  "js ''| '' = [PIPE, SPACE]"
  "js ''--- |'' = [DASH, DASH, DASH, SPACE, PIPE]"
  by (simp_all add: js_def DASH_def SPACE_def PIPE_def)

lemma separatorText_alt:
  "separatorText n = PIPE # concat (replicate (Suc n) [SPACE, DASH, DASH, DASH, SPACE, PIPE])"
proof -
  have "[SPACE] @ concat (replicate n [DASH, DASH, DASH, SPACE, PIPE, SPACE]) @ [DASH, DASH, DASH, SPACE, PIPE]
        = concat (replicate (Suc n) [SPACE, DASH, DASH, DASH, SPACE, PIPE])"
    by (induction n) auto
  then show ?thesis by (simp add: separatorText_def js_literals)
qed

lemma separatorText_alt2:
  "separatorText n = PIPE # (concat (replicate n [SPACE, DASH, DASH, DASH, SPACE, PIPE]) @ [SPACE, DASH, DASH, DASH, SPACE]) @ [PIPE]"
proof -
  have "concat (replicate (Suc n) [SPACE, DASH, DASH, DASH, SPACE, PIPE])
      = concat (replicate n [SPACE, DASH, DASH, DASH, SPACE, PIPE]) @ [SPACE, DASH, DASH, DASH, SPACE, PIPE]"
    by (induction n) auto
  then show ?thesis by (simp add: separatorText_alt)
qed

lemma separatorText_chars:
  "includesChar (separatorText n) PIPE" "includesChar (separatorText n) DASH"
  "separatorText n \<noteq> []" "NL \<notin> set (separatorText n)"
  by (auto simp: separatorText_alt includesChar_def)

lemma split_cells:
  "split PIPE (concat (replicate k [SPACE, DASH, DASH, DASH, SPACE, PIPE])) =
     replicate k [SPACE, DASH, DASH, DASH, SPACE] @ [[]]"
  by (induction k) auto

lemma split_separatorText:
  "split PIPE (separatorText n) = [] # replicate (Suc n) [SPACE, DASH, DASH, DASH, SPACE] @ [[]]"
  unfolding separatorText_alt using split_cells [of "Suc n"] by simp

lemma trim_Nil [simp]: "trim [] = []"
  by (simp add: trim_def)

lemma separatorCols_separatorText: "separatorCols (separatorText n) = int (Suc n)"
  by (simp add: separatorCols_def split_separatorText includesChar_def)

lemma isSeparator_separatorText: "isSeparator (separatorText n)"
proof -
  let ?mid = "concat (replicate n [SPACE, DASH, DASH, DASH, SPACE, PIPE]) @ [SPACE, DASH, DASH, DASH, SPACE]"
  have all: "list_all sepClass ?mid"
    by (induction n) (auto simp: sepClass_def)
  have ne: "?mid \<noteq> []" by simp
  have "isSeparator (PIPE # ?mid @ [PIPE])"
    using all ne by (simp add: isSeparator_def list_all_iff)
  then show ?thesis by (simp only: separatorText_alt2)
qed

lemma normalized_separatorText: "normalized (separatorText n) = separatorText n"
  by (simp add: normalized_def separatorText_chars isSeparator_separatorText separatorCols_separatorText)

lemma skipped_separatorText: "\<not> skipped (separatorText n)"
  by (simp add: skipped_def separatorText_chars)

lemma isTableRow_separatorText: "\<not> isTableRow (separatorText n)"
  by (simp add: isTableRow_def separatorText_chars)

lemma separatorRow_ok: "1 \<le> n \<Longrightarrow> separatorRow n = Inr (separatorText (nat (n - 1)))"
  by (simp add: separatorRow_def repeat_def separatorText_def)

lemma separatorRow_fails: "n < 1 \<Longrightarrow> separatorRow n = Inl RangeError"
  by (simp add: separatorRow_def repeat_def)

lemma separatorCols_pos:
  assumes "includesChar line DASH"
  shows "1 \<le> separatorCols line"
proof -
  from assms obtain seg where seg: "seg \<in> set (split PIPE line)" "DASH \<in> set seg"
    using split_member [of DASH line PIPE] by (auto simp: includesChar_def)
  then have "seg \<in> set (filter (\<lambda>s. length (trim s) > 0 \<or> includesChar s DASH) (split PIPE line))"
    by (simp add: includesChar_def)
  then have "filter (\<lambda>s. length (trim s) > 0 \<or> includesChar s DASH) (split PIPE line) \<noteq> []"
    by (metis empty_iff empty_set)
  then show ?thesis
    unfolding separatorCols_def by (simp add: Suc_leI)
qed

lemma headerCols_cellContent: "headerCols line = int (length (cellContent line))"
  by (simp add: headerCols_def cellContent_def filter_map comp_def)

lemma headerCols_pos:
  assumes "includesChar line PIPE" "\<not> skipped line" "\<not> includesChar line DASH"
  shows "1 \<le> headerCols line"
proof -
  from assms have "\<not> isEmptyRow line" by (simp add: skipped_def)
  then have "cellContent line \<noteq> []" by (auto simp: isEmptyRow_def)
  then show ?thesis by (simp add: headerCols_cellContent Suc_leI)
qed

lemma isTableRow_pipe: "isTableRow line \<Longrightarrow> includesChar line PIPE"
proof -
  assume "isTableRow line"
  then have "startsWith (trim line) PIPE" by (simp add: isTableRow_def)
  then have "PIPE \<in> set (trim line)" by (auto simp: startsWith_def split: list.splits)
  then show ?thesis using set_trim_subset by (auto simp: includesChar_def)
qed

lemma normalizeLine_ok: "normalizeLine line = Inr (normalized line)"
  by (simp add: normalizeLine_def normalized_def separatorRow_ok separatorCols_pos)

lemma normalized_cases:
  "normalized line = line \<or> (\<exists>n. normalized line = separatorText n)"
  by (auto simp: normalized_def)

lemma normalized_tableRow: "isTableRow (normalized line) \<Longrightarrow> normalized line = line"
  using normalized_cases [of line] isTableRow_separatorText by metis

lemma normalized_idem: "normalized (normalized line) = normalized line"
  using normalized_cases [of line] normalized_separatorText by metis

lemma skipped_normalized: "\<not> skipped line \<Longrightarrow> \<not> skipped (normalized line)"
  using normalized_cases [of line] skipped_separatorText by metis

lemma processLines_ok: "processLines seen ls = Inr (pushedLines seen ls)"
proof (induction ls arbitrary: seen)
  case Nil
  show ?case by simp
next
  case (Cons l rest)
  show ?case
  proof (cases "skipped l")
    case True
    then show ?thesis by (simp add: Cons)
  next
    case ns: False
    show ?thesis
    proof (cases "isTableRow (normalized l) \<and> \<not> seen")
      case True
      then have eq: "normalized l = l" using normalized_tableRow by blast
      with True have tr: "isTableRow l" by simp
      then have "1 \<le> headerCols l"
        using ns by (intro headerCols_pos) (auto simp: isTableRow_pipe isTableRow_def)
      then show ?thesis
        using True ns eq by (simp add: normalizeLine_ok Cons separatorRow_ok)
    next
      case False
      then show ?thesis using ns by (auto simp add: normalizeLine_ok Cons)
    qed
  qed
qed

lemma pushedLines_True: "pushedLines True ls = map normalized (filter (\<lambda>l. \<not> skipped l) ls)"
  by (induction ls) auto

lemma pushedLines_True_idem: "pushedLines True (pushedLines True ls) = pushedLines True ls"
  by (induction ls) (auto simp: pushedLines_True skipped_normalized normalized_idem)

lemma pushedLines_True_separatorText:
  "pushedLines True (separatorText n # ls) = separatorText n # pushedLines True ls"
  by (simp add: skipped_separatorText normalized_separatorText)

lemma normalized_keeps_pipe_dash:
  assumes "includesChar l PIPE" "includesChar l DASH"
  shows "includesChar (normalized l) PIPE \<and> includesChar (normalized l) DASH"
  using normalized_cases [of l] assms separatorText_chars by metis

lemma skipped_Nil [simp]: "\<not> skipped []"
  by (simp add: skipped_def includesChar_def)

lemma normalized_Nil [simp]: "normalized [] = []"
  by (simp add: normalized_def includesChar_def)

lemma no_second_separator:
  assumes "\<not> nextNeedsSeparator rest"
  shows "\<not> nextNeedsSeparator (pushedLines True rest)"
proof (cases rest)
  case Nil
  then show ?thesis by (simp add: nextNeedsSeparator_def)
next
  case (Cons nextLine more)
  show ?thesis
  proof (cases "nextLine = []")
    case True
    with Cons show ?thesis by (simp add: nextNeedsSeparator_def)
  next
    case False
    with assms Cons have pd: "includesChar nextLine PIPE" "includesChar nextLine DASH"
      by (auto simp: nextNeedsSeparator_def)
    then have "\<not> skipped nextLine" by (simp add: skipped_def)
    with Cons pd normalized_keeps_pipe_dash [of nextLine] show ?thesis
      by (simp add: nextNeedsSeparator_def)
  qed
qed

lemma pushedLines_idem: "pushedLines seen (pushedLines seen ls) = pushedLines seen ls"
proof (induction ls arbitrary: seen)
  case Nil
  show ?case by simp
next
  case (Cons l rest)
  show ?case
  proof (cases "skipped l")
    case True
    then show ?thesis by (simp add: Cons)
  next
    case ns: False
    show ?thesis
    proof (cases "isTableRow (normalized l) \<and> \<not> seen")
      case False
      then show ?thesis
        using ns by (auto simp: Cons skipped_normalized normalized_idem)
    next
      case True
      then have eq: "normalized l = l" using normalized_tableRow by blast
      with True have tr: "isTableRow l" "\<not> seen" by simp_all
      show ?thesis
      proof (cases "nextNeedsSeparator rest")
        case True
        let ?s = "separatorText (nat (headerCols l - 1))"
        have out: "pushedLines seen (l # rest) = l # ?s # pushedLines True rest"
          using ns tr eq True by simp
        have nn: "\<not> nextNeedsSeparator (?s # pushedLines True rest)"
          by (simp add: nextNeedsSeparator_def separatorText_chars)
        have "pushedLines seen (l # ?s # pushedLines True rest)
              = l # pushedLines True (?s # pushedLines True rest)"
          using ns tr eq nn by simp
        also have "\<dots> = l # ?s # pushedLines True rest"
          by (simp only: pushedLines_True_separatorText pushedLines_True_idem)
        finally show ?thesis by (simp only: out)
      next
        case False
        have out: "pushedLines seen (l # rest) = l # pushedLines True rest"
          using ns tr eq False by simp
        have nn: "\<not> nextNeedsSeparator (pushedLines True rest)"
          using False by (rule no_second_separator)
        have "pushedLines seen (l # pushedLines True rest) = l # pushedLines True (pushedLines True rest)"
          using ns tr eq nn by simp
        then show ?thesis by (simp only: out pushedLines_True_idem)
      qed
    qed
  qed
qed

lemma normalized_no_NL: "NL \<notin> set l \<Longrightarrow> NL \<notin> set (normalized l)"
  using normalized_cases [of l] separatorText_chars(4) by metis

lemma pushedLines_no_NL:
  "\<forall>l \<in> set ls. NL \<notin> set l \<Longrightarrow> \<forall>l \<in> set (pushedLines seen ls). NL \<notin> set l"
  by (induction ls arbitrary: seen) (auto simp: normalized_no_NL separatorText_chars)

lemma preprocessMarkdown_ok:
  "preprocessMarkdown text =
     Inr (if includesChar text PIPE then join NL (pushedLines False (split NL text)) else text)"
  by (simp add: preprocessMarkdown_def processLines_ok)

lemma preprocess_twice:
  assumes "preprocessMarkdown text = Inr once"
  shows "preprocessMarkdown once = Inr once"
proof (cases "includesChar once PIPE")
  case False
  then show ?thesis by (simp add: preprocessMarkdown_def)
next
  case True
  show ?thesis
  proof (cases "includesChar text PIPE")
    case False
    with assms show ?thesis by (simp add: preprocessMarkdown_def)
  next
    case pipe: True
    let ?out = "pushedLines False (split NL text)"
    from assms pipe have once: "once = join NL ?out"
      by (simp add: preprocessMarkdown_ok)
    have ne: "?out \<noteq> []"
      using True once by (auto simp: includesChar_def)
    have "\<forall>l \<in> set (split NL text). NL \<notin> set l"
      using split_segments_no_sep by blast
    then have "\<forall>l \<in> set ?out. NL \<notin> set l" by (rule pushedLines_no_NL)
    with ne have "split NL once = ?out"
      unfolding once by (rule split_join)
    then show ?thesis
      using True by (simp add: preprocessMarkdown_ok pushedLines_idem once)
  qed
qed

lemma isSeparator_regex: "isSeparator line \<longleftrightarrow> matchesSeparatorRegex line"
proof
  assume "matchesSeparatorRegex line"
  then obtain a b c where l: "line = a @ [PIPE] @ b @ [PIPE] @ c"
    and a: "list_all isWhiteSpace a" and b: "b \<noteq> []" "list_all sepClass b"
    and c: "list_all isWhiteSpace c"
    unfolding matchesSeparatorRegex_def by blast
  define r where "r = b @ [PIPE] @ c"
  from a have 1: "dropWhile isWhiteSpace line = PIPE # r"
    unfolding l r_def by (simp add: list_all_iff dropWhile_append3)
  from c have 2: "dropWhile isWhiteSpace (rev r) = PIPE # rev b"
    unfolding r_def by (simp add: list_all_iff dropWhile_append3)
  show "isSeparator line"
    using b by (simp add: isSeparator_def 1 2 list_all_iff)
next
  assume s: "isSeparator line"
  then obtain r where 1: "dropWhile isWhiteSpace line = PIPE # r"
    by (auto simp: isSeparator_def split: list.splits)
  with s obtain m where 2: "dropWhile isWhiteSpace (rev r) = PIPE # m" and m: "m \<noteq> []" "list_all sepClass m"
    by (auto simp: isSeparator_def split: list.splits)
  let ?a = "takeWhile isWhiteSpace line" and ?c = "rev (takeWhile isWhiteSpace (rev r))"
  have "line = ?a @ PIPE # r" using 1 takeWhile_dropWhile_id [of isWhiteSpace line] by simp
  moreover have "rev r = rev ?c @ PIPE # m" using 2 takeWhile_dropWhile_id [of isWhiteSpace "rev r"] by simp
  then have "r = rev m @ [PIPE] @ ?c" by (metis rev_append rev_rev_ident rev.simps(2) append_assoc append_Cons append_Nil rev_swap)
  ultimately have "line = ?a @ [PIPE] @ rev m @ [PIPE] @ ?c" by simp
  moreover have "list_all isWhiteSpace ?a" "list_all isWhiteSpace ?c"
    by (auto simp: list_all_iff dest: set_takeWhileD)
  moreover have "rev m \<noteq> []" "list_all sepClass (rev m)" using m by (simp_all add: list_all_iff)
  ultimately show "matchesSeparatorRegex line"
    unfolding matchesSeparatorRegex_def by blast
qed

lemma pushedLines_before_header:
  assumes "\<forall>l \<in> set pre. skipped l \<or> \<not> isTableRow l"
  shows "pushedLines False (pre @ others) = pushedLines True pre @ pushedLines False others"
  using assms
proof (induction pre)
  case Nil
  show ?case by simp
next
  case (Cons l pre)
  show ?case
  proof (cases "skipped l")
    case True
    with Cons show ?thesis by simp
  next
    case False
    with Cons.prems have "\<not> isTableRow l" by simp
    then have "\<not> isTableRow (normalized l)"
      using normalized_tableRow by fastforce
    with False Cons show ?thesis by simp
  qed
qed

lemma pushedLines_at_header:
  assumes "\<not> skipped h" "isTableRow h"
  shows "pushedLines False (h # rest) =
           h # (if nextNeedsSeparator rest then [separatorText (nat (headerCols h - 1))] else [])
             @ pushedLines True rest"
proof -
  from assms(2) have "\<not> includesChar h DASH" by (simp add: isTableRow_def)
  then have "normalized h = h" by (simp add: normalized_def)
  with assms show ?thesis by simp
qed

section \<open>Claims on the preprocessor\<close>

text \<open>
  Claim C9. Whenever the preprocessor builds a separator row, the column count is at least
  one, so that \<open>repeat\<close> never gets a negative count: for a line rewritten as a separator
  row (line 83), for a pushed line after which a row is synthesized (line 97), and hence
  for the whole run, which returns a text and never the RangeError of \<open>repeat\<close>.
\<close>

theorem column_count_at_least_one:
  "(isSeparatorRow line \<longrightarrow>
      1 \<le> separatorCols line \<and> (\<exists>row. normalizeLine line = Inr row))
   \<and> (\<not> skipped l \<and> normalizeLine l = Inr pushed \<and> isTableRow pushed \<longrightarrow>
      1 \<le> headerCols pushed \<and> (\<exists>row. separatorRow (headerCols pushed) = Inr row))
   \<and> (\<exists>out. preprocessMarkdown text = Inr out)"
proof (intro conjI impI)
  assume "isSeparatorRow line"
  then show "1 \<le> separatorCols line"
    by (simp add: isSeparatorRow_def separatorCols_pos)
  show "\<exists>row. normalizeLine line = Inr row"
    by (simp add: normalizeLine_ok)
next
  assume a: "\<not> skipped l \<and> normalizeLine l = Inr pushed \<and> isTableRow pushed"
  then have p: "pushed = normalized l" by (simp add: normalizeLine_ok)
  with a have "pushed = l" using normalized_tableRow by metis
  with a have "\<not> skipped pushed" "isTableRow pushed" by simp_all
  then show 1: "1 \<le> headerCols pushed"
    by (intro headerCols_pos) (auto simp: isTableRow_pipe isTableRow_def)
  then show "\<exists>row. separatorRow (headerCols pushed) = Inr row"
    by (simp add: separatorRow_ok)
next
  show "\<exists>out. preprocessMarkdown text = Inr out"
    by (simp add: preprocessMarkdown_ok)
qed

theorem column_count_at_least_one_witness:
  "isSeparatorRow (js ''|-|:-:|'') \<and> separatorCols (js ''|-|:-:|'') = 2
   \<and> \<not> skipped (js ''| a | b |'') \<and> normalizeLine (js ''| a | b |'') = Inr (js ''| a | b |'')
   \<and> isTableRow (js ''| a | b |'') \<and> headerCols (js ''| a | b |'') = 2
   \<and> preprocessMarkdown (js ''| a | b |'' @ NL # js ''|-|:-:|'')
       = Inr (js ''| a | b |'' @ NL # js ''| --- | --- |'')"
proof -
  have s: "isSeparatorRow (js ''|-|:-:|'')"
    by code_simp
  have h: "\<not> skipped (js ''| a | b |'') \<and> normalizeLine (js ''| a | b |'') = Inr (js ''| a | b |'')
      \<and> isTableRow (js ''| a | b |'')"
    by code_simp
  have c: "separatorCols (js ''|-|:-:|'') = 2" "headerCols (js ''| a | b |'') = 2"
    by code_simp+
  have p: "preprocessMarkdown (js ''| a | b |'' @ NL # js ''|-|:-:|'')
       = Inr (js ''| a | b |'' @ NL # js ''| --- | --- |'')"
    by code_simp
  from column_count_at_least_one
    [of "js ''|-|:-:|''" "js ''| a | b |''" "js ''| a | b |''" "js ''| a | b |'' @ NL # js ''|-|:-:|''"]
  have "1 \<le> separatorCols (js ''|-|:-:|'')" "1 \<le> headerCols (js ''| a | b |'')"
    using s h by blast+
  with s h c p show ?thesis by simp
qed

text \<open>
  Claim C5. The preprocessor is idempotent: it returns a text for every input, and on that
  text it returns the same text again.
\<close>

theorem preprocess_idempotent:
  "\<exists>once. preprocessMarkdown text = Inr once \<and> preprocessMarkdown once = Inr once"
proof -
  obtain once where 1: "preprocessMarkdown text = Inr once"
    by (simp add: preprocessMarkdown_ok)
  then have "preprocessMarkdown once = Inr once" by (rule preprocess_twice)
  with 1 show ?thesis by blast
qed

theorem preprocess_idempotent_witness:
  "preprocessMarkdown (js ''| a | b |'' @ NL # js ''| |'' @ NL # js ''| 1 | 2 |'')
     = Inr (js ''| a | b |'' @ NL # js ''| --- | --- |'' @ NL # js ''| 1 | 2 |'')
   \<and> preprocessMarkdown (js ''| a | b |'' @ NL # js ''| --- | --- |'' @ NL # js ''| 1 | 2 |'')
     = Inr (js ''| a | b |'' @ NL # js ''| --- | --- |'' @ NL # js ''| 1 | 2 |'')"
proof -
  have 1: "preprocessMarkdown (js ''| a | b |'' @ NL # js ''| |'' @ NL # js ''| 1 | 2 |'')
     = Inr (js ''| a | b |'' @ NL # js ''| --- | --- |'' @ NL # js ''| 1 | 2 |'')"
    by code_simp
  with preprocess_idempotent [of "js ''| a | b |'' @ NL # js ''| |'' @ NL # js ''| 1 | 2 |''"]
  show ?thesis by auto
qed

text \<open>
  Claim C4, as amended. Let \<open>h\<close> be the first line that is not dropped as an empty row and
  that, trimmed, starts and ends with a pipe and contains no dash. The output is the lines
  before \<open>h\<close> kept or rewritten one by one, then \<open>h\<close>, then at most one synthesized
  separator row, then the lines after \<open>h\<close> kept or rewritten one by one. No row is
  synthesized when \<open>h\<close> is the last line, when the following original line is empty, or when
  it is a separator row; a row is synthesized when the following original line is not empty
  and lacks a pipe or lacks a dash.
\<close>

theorem separator_after_first_table_row:
  assumes "split NL text = pre @ h # rest"
    and "\<forall>l \<in> set pre. skipped l \<or> \<not> isTableRow l"
    and "\<not> skipped h" and "isTableRow h"
  shows "\<exists>ins. preprocessMarkdown text =
             Inr (join NL (map normalized (filter (\<lambda>l. \<not> skipped l) pre) @ h # ins @
                           map normalized (filter (\<lambda>l. \<not> skipped l) rest)))
           \<and> (ins = [] \<or> ins = [separatorText (nat (headerCols h - 1))])
           \<and> (case rest of
                 [] \<Rightarrow> ins = []
               | nextLine # _ \<Rightarrow>
                   (nextLine = [] \<or> isSeparatorRow nextLine \<longrightarrow> ins = []) \<and>
                   (nextLine \<noteq> [] \<and> \<not> (includesChar nextLine PIPE \<and> includesChar nextLine DASH)
                      \<longrightarrow> ins \<noteq> []))"
proof -
  let ?ins = "if nextNeedsSeparator rest then [separatorText (nat (headerCols h - 1))] else []"
  have "h \<in> set (split NL text)" using assms(1) by simp
  then have "set h \<subseteq> set text" by (rule split_segments_subset)
  moreover have "PIPE \<in> set h" using assms(4) isTableRow_pipe by (simp add: includesChar_def)
  ultimately have pipe: "includesChar text PIPE" by (auto simp: includesChar_def)
  have "pushedLines False (split NL text) = pushedLines True pre @ h # ?ins @ pushedLines True rest"
    unfolding assms(1)
    by (simp only: pushedLines_before_header [OF assms(2)] pushedLines_at_header [OF assms(3,4)] append_Cons)
  then have out: "preprocessMarkdown text =
      Inr (join NL (map normalized (filter (\<lambda>l. \<not> skipped l) pre) @ h # ?ins @
                    map normalized (filter (\<lambda>l. \<not> skipped l) rest)))"
    using pipe by (simp add: preprocessMarkdown_ok pushedLines_True)
  have cases: "case rest of
                 [] \<Rightarrow> ?ins = []
               | nextLine # _ \<Rightarrow>
                   (nextLine = [] \<or> isSeparatorRow nextLine \<longrightarrow> ?ins = []) \<and>
                   (nextLine \<noteq> [] \<and> \<not> (includesChar nextLine PIPE \<and> includesChar nextLine DASH)
                      \<longrightarrow> ?ins \<noteq> [])"
    by (auto simp: nextNeedsSeparator_def isSeparatorRow_def split: list.splits)
  have "?ins = [] \<or> ?ins = [separatorText (nat (headerCols h - 1))]" by simp
  with out cases show ?thesis by blast
qed

theorem separator_after_first_table_row_witness:
  "split NL (js ''Prices'' @ NL # js ''| a | b |'' @ NL # js ''| 1 | 2 |'')
     = [js ''Prices''] @ js ''| a | b |'' # [js ''| 1 | 2 |'']
   \<and> \<not> isTableRow (js ''Prices'')
   \<and> \<not> skipped (js ''| a | b |'') \<and> isTableRow (js ''| a | b |'')
   \<and> preprocessMarkdown (js ''Prices'' @ NL # js ''| a | b |'' @ NL # js ''| 1 | 2 |'')
       = Inr (js ''Prices'' @ NL # js ''| a | b |'' @ NL # js ''| --- | --- |'' @ NL # js ''| 1 | 2 |'')
   \<and> (\<exists>ins. preprocessMarkdown (js ''Prices'' @ NL # js ''| a | b |'' @ NL # js ''| 1 | 2 |'') =
             Inr (join NL (map normalized (filter (\<lambda>l. \<not> skipped l) [js ''Prices'']) @
                           js ''| a | b |'' # ins @
                           map normalized (filter (\<lambda>l. \<not> skipped l) [js ''| 1 | 2 |'']))))"
proof -
  have 1: "split NL (js ''Prices'' @ NL # js ''| a | b |'' @ NL # js ''| 1 | 2 |'')
     = [js ''Prices''] @ js ''| a | b |'' # [js ''| 1 | 2 |'']"
    by code_simp
  have p: "\<not> isTableRow (js ''Prices'')"
    by code_simp
  then have 2: "\<forall>l \<in> set [js ''Prices'']. skipped l \<or> \<not> isTableRow l"
    by simp
  have 3: "\<not> skipped (js ''| a | b |'')" and 4: "isTableRow (js ''| a | b |'')"
    by code_simp+
  have 5: "preprocessMarkdown (js ''Prices'' @ NL # js ''| a | b |'' @ NL # js ''| 1 | 2 |'')
       = Inr (js ''Prices'' @ NL # js ''| a | b |'' @ NL # js ''| --- | --- |'' @ NL # js ''| 1 | 2 |'')"
    by code_simp
  from separator_after_first_table_row [OF 1 2 3 4]
  have "\<exists>ins. preprocessMarkdown (js ''Prices'' @ NL # js ''| a | b |'' @ NL # js ''| 1 | 2 |'') =
             Inr (join NL (map normalized (filter (\<lambda>l. \<not> skipped l) [js ''Prices'']) @
                           js ''| a | b |'' # ins @
                           map normalized (filter (\<lambda>l. \<not> skipped l) [js ''| 1 | 2 |''])))"
    by blast
  with 1 p 3 4 5 show ?thesis by blast
qed

text \<open>
  The claim as stated fails on a header row followed by an empty line: the following
  original line is not a separator row, and no separator row is inserted.
\<close>

theorem separator_after_first_table_row_counterexample:
  "isTableRow (js ''| a |'') \<and> \<not> skipped (js ''| a |'') \<and> \<not> isSeparatorRow []
   \<and> split NL (js ''| a |'' @ NL # NL # js ''| b |'') = [js ''| a |'', [], js ''| b |'']
   \<and> preprocessMarkdown (js ''| a |'' @ NL # NL # js ''| b |'')
       = Inr (js ''| a |'' @ NL # NL # js ''| b |'')"
  by code_simp

section \<open>Lemmas on JSON values and the store\<close>

lemma insertNew_shape: "\<exists>a b. ps = a @ b \<and> insertNew k v ps = a @ (k, v) # b"
proof (cases "arrayIndex k")
  case None
  then have "ps = ps @ [] \<and> insertNew k v ps = ps @ (k, v) # []"
    by (simp add: insertNew_def)
  then show ?thesis by blast
next
  case (Some n)
  then have "ps = takeWhile (indexBefore n) ps @ dropWhile (indexBefore n) ps \<and>
      insertNew k v ps = takeWhile (indexBefore n) ps @ (k, v) # dropWhile (indexBefore n) ps"
    by (simp add: insertNew_def)
  then show ?thesis by blast
qed

lemma arrayIndex_letter: "k \<noteq> [] \<Longrightarrow> \<not> isDigit (hd k) \<Longrightarrow> arrayIndex k = None"
  by (cases k) (simp_all add: arrayIndex_def)

lemma arrayIndex_names [simp]:
  "arrayIndex (js ''chatId'') = None" "arrayIndex (js ''chatHistory'') = None"
  "arrayIndex (js ''lead'') = None"
  by (rule arrayIndex_letter; simp add: js_def isDigit_def)+

lemma setProp_new_name:
  "k \<notin> fst ` set ps \<Longrightarrow> arrayIndex k = None \<Longrightarrow> setProp k v ps = ps @ [(k, v)]"
  by (simp add: setProp_def insertNew_def)

lemma getProp_setProp_same: "getProp k (setProp k v ps) = Some v"
proof (cases "k \<in> fst ` set ps")
  case True
  then have "map_of (map (\<lambda>(k', v'). if k' = k then (k', v) else (k', v')) ps) k = Some v"
    by (induction ps) auto
  with True show ?thesis by (simp add: getProp_def setProp_def)
next
  case False
  obtain a b where ab: "ps = a @ b" "insertNew k v ps = a @ (k, v) # b"
    using insertNew_shape by blast
  from False ab(1) have "k \<notin> fst ` set a" by auto
  then have "map_of a k = None" by (simp add: map_of_eq_None_iff)
  with False ab(2) show ?thesis by (simp add: getProp_def setProp_def map_add_def)
qed

lemma getProp_setProp_other: "k' \<noteq> k \<Longrightarrow> getProp k' (setProp k v ps) = getProp k' ps"
proof (cases "k \<in> fst ` set ps")
  case True
  assume "k' \<noteq> k"
  then have "map_of (map (\<lambda>(k'', v'). if k'' = k then (k'', v) else (k'', v')) ps) k' = map_of ps k'"
    by (induction ps) auto
  with True show ?thesis by (simp add: getProp_def setProp_def)
next
  case False
  assume n: "k' \<noteq> k"
  obtain a b where ab: "ps = a @ b" "insertNew k v ps = a @ (k, v) # b"
    using insertNew_shape by blast
  have "map_of (a @ (k, v) # b) k' = map_of (a @ b) k'"
    using n by (simp add: map_add_def split: option.splits)
  with False ab show ?thesis by (simp add: getProp_def setProp_def)
qed

lemma keys_distinct [simp]: "js ''chatHistory'' \<noteq> js ''chatId''" "js ''chatId'' \<noteq> js ''chatHistory''"
  by (simp_all add: js_def)

lemma spec_stripEntry_object:
  "spec_stripEntry (JObj ps) = JObj (filter (\<lambda>(k, v). k \<notin> set heavyFields) ps)"
  by (simp add: spec_stripEntry_def)




lemma sliceLast_spec: "sliceLast MAX_HISTORY xs = spec_lastThirty xs"
  by (simp add: sliceLast_def spec_lastThirty_def MAX_HISTORY_def take_rev)

lemma stripHeavy_object: "isObject msg \<Longrightarrow> stripHeavy msg = Inr (spec_withoutHeavyFields msg)"
  by (cases msg) (simp_all add: stripHeavy_def spec_withoutHeavyFields_def heavyFields_def)

lemma mapResult_objects:
  "list_all isObject xs \<Longrightarrow> mapResult stripHeavy xs = Inr (map spec_withoutHeavyFields xs)"
  by (induction xs) (simp_all add: stripHeavy_object)

lemma distinct_value:
  "distinct (map fst ps) \<Longrightarrow> map_of ps k = Some x \<Longrightarrow> (k, v) \<in> set ps \<Longrightarrow> v = x"
  using map_of_is_SomeI by fastforce

lemma withChatId_fields:
  "setProp (js ''chatId'') (JStr chatId) obj =
     map (\<lambda>field. if fst field = js ''chatId'' then (fst field, JStr chatId) else field) obj @
     (if js ''chatId'' \<in> fst ` set obj then [] else [(js ''chatId'', JStr chatId)])"
proof (cases "js ''chatId'' \<in> fst ` set obj")
  case True
  have "(\<lambda>(k', v'). if k' = js ''chatId'' then (k', JStr chatId) else (k', v'))
        = (\<lambda>field. if fst field = js ''chatId'' then (fst field, JStr chatId) else field)"
    by (auto simp: fun_eq_iff)
  with True show ?thesis by (simp add: setProp_def)
next
  case False
  then have "map (\<lambda>field. if fst field = js ''chatId'' then (fst field, JStr chatId) else field) obj
             = obj"
    by (intro map_idI) (auto simp: image_iff)
  with False show ?thesis by (simp add: setProp_new_name)
qed

lemma trimmedRecord_spec:
  assumes "chatId \<noteq> []" "distinct (map fst saveObj)" "list_all isObject (keptEntries saveObj)"
  shows "trimmedRecord chatId saveObj = Inr (spec_savedRecord chatId saveObj)"
proof -
  define withId where "withId = setProp (js ''chatId'') (JStr chatId) saveObj"
  define f1 :: "jsstring \<times> json \<Rightarrow> jsstring \<times> json"
    where "f1 = (\<lambda>field. if fst field = js ''chatId'' then (fst field, JStr chatId) else field)"
  define rest where
    "rest = (if js ''chatId'' \<in> fst ` set saveObj then [] else [(js ''chatId'', JStr chatId)])"
  have w: "withId = map f1 saveObj @ rest"
    unfolding withId_def f1_def rest_def by (rule withChatId_fields)
  have look: "getProp (js ''chatHistory'') withId = map_of saveObj (js ''chatHistory'')"
    unfolding withId_def by (simp add: getProp_setProp_other) (simp add: getProp_def)
  have t: "trimmedRecord chatId saveObj =
     (case map_of saveObj (js ''chatHistory'') of
           Some (JArr history) \<Rightarrow>
             (case mapResult stripHeavy (sliceLast MAX_HISTORY history) of
                Inl e \<Rightarrow> Inl e
              | Inr trimmed \<Rightarrow> Inr (setProp (js ''chatHistory'') (JArr trimmed) withId))
         | _ \<Rightarrow> Inr withId)"
    using assms(1) look unfolding withId_def
    by (simp add: trimmedRecord_def Let_def)
  have spec: "spec_savedRecord chatId saveObj = map (spec_savedField chatId) saveObj @ rest"
    by (simp add: spec_savedRecord_def rest_def)
  show ?thesis
  proof (cases "\<exists>entries. map_of saveObj (js ''chatHistory'') = Some (JArr entries)")
    case True
    then obtain entries where h: "map_of saveObj (js ''chatHistory'') = Some (JArr entries)"
      by blast
    define kept where "kept = map spec_withoutHeavyFields (spec_lastThirty entries)"
    from h assms(3) have "list_all isObject (spec_lastThirty entries)"
      by (simp add: keptEntries_def)
    then have m: "mapResult stripHeavy (sliceLast MAX_HISTORY entries) = Inr kept"
      by (simp add: sliceLast_spec mapResult_objects kept_def)
    from h look have "map_of withId (js ''chatHistory'') = Some (JArr entries)"
      by (simp add: getProp_def)
    then have present: "js ''chatHistory'' \<in> fst ` set withId"
      by (force dest: map_of_SomeD)
    have "setProp (js ''chatHistory'') (JArr kept) withId
          = map (\<lambda>(k', v'). if k' = js ''chatHistory'' then (k', JArr kept) else (k', v')) withId"
      using present by (simp add: setProp_def)
    also have "\<dots> = map (\<lambda>(k', v'). if k' = js ''chatHistory'' then (k', JArr kept) else (k', v'))
                        (map f1 saveObj) @ rest"
      by (simp add: w rest_def)
    also have "map (\<lambda>(k', v'). if k' = js ''chatHistory'' then (k', JArr kept) else (k', v'))
                        (map f1 saveObj) = map (spec_savedField chatId) saveObj"
    proof (simp only: map_map, rule map_cong [OF refl])
      fix field assume "field \<in> set saveObj"
      then obtain name v where f: "field = (name, v)" "(name, v) \<in> set saveObj"
        by (metis surj_pair)
      show "((\<lambda>(k', v'). if k' = js ''chatHistory'' then (k', JArr kept) else (k', v')) \<circ> f1) field
            = spec_savedField chatId field"
      proof (cases "name = js ''chatHistory''")
        case True
        with f(2) h assms(2) have "v = JArr entries" using distinct_value by metis
        with True f(1) show ?thesis
          by (simp add: f1_def spec_savedField_def kept_def)
      next
        case False
        with f(1) show ?thesis by (simp add: f1_def spec_savedField_def)
      qed
    qed
    finally have "setProp (js ''chatHistory'') (JArr kept) withId = spec_savedRecord chatId saveObj"
      by (simp add: spec)
    with h m show ?thesis by (simp add: t)
  next
    case False
    then have tw: "trimmedRecord chatId saveObj = Inr withId"
      by (auto simp: t split: option.splits json.splits)
    have "map f1 saveObj = map (spec_savedField chatId) saveObj"
    proof (rule map_cong [OF refl])
      fix field assume "field \<in> set saveObj"
      then obtain name v where f: "field = (name, v)" "(name, v) \<in> set saveObj"
        by (metis surj_pair)
      show "f1 field = spec_savedField chatId field"
      proof (cases "name = js ''chatHistory''")
        case True
        with f(2) assms(2) have "map_of saveObj (js ''chatHistory'') = Some v"
          by (simp add: map_of_is_SomeI)
        with False have "\<nexists>entries. v = JArr entries" by simp
        with True f(1) show ?thesis
          by (cases v) (simp_all add: f1_def spec_savedField_def)
      next
        case False
        with f(1) show ?thesis by (simp add: f1_def spec_savedField_def)
      qed
    qed
    with tw show ?thesis by (simp add: w spec)
  qed
qed

lemma list_all_replicate: "list_all P (replicate n x) \<longleftrightarrow> n = 0 \<or> P x"
  by (induction n) auto

lemma quoteChars_plain: "list_all plainChar s \<Longrightarrow> quoteChars s = s"
proof (induction s)
  case Nil
  show ?case by simp
next
  case (Cons c cs)
  then have p: "plainChar c" and "quoteChars cs = cs" by simp_all
  from p have "c \<noteq> 0x08" "c \<noteq> 0x09" "c \<noteq> 0x0A" "c \<noteq> 0x0C" "c \<noteq> 0x0D" "c \<noteq> 0x22" "c \<noteq> 0x5C"
    "\<not> c < 0x20" "\<not> isHighSurrogate c" "\<not> isLowSurrogate c"
    by (auto simp: plainChar_def isHighSurrogate_def isLowSurrogate_def word_le_nat_alt word_less_nat_alt)
  with \<open>quoteChars cs = cs\<close> show ?case by simp
qed

lemma utf8Length_ascii: "list_all (\<lambda>c. c < 0x80) s \<Longrightarrow> utf8Length s = length s"
  by (induction s) simp_all


lemmas json_eval =
  byteSize_def quoteJSONString_def quoteChars_plain list_all_replicate plainChar_def js_def
  utf8Length_ascii isHighSurrogate_def isLowSurrogate_def


lemma stringifyElements_replicate:
  "stringifyElements (replicate (Suc n) x) = JSON_stringify x @ concat (replicate n (0x2C # JSON_stringify x))"
  by (induction n) simp_all



section \<open>Lemmas on the renderer\<close>

lemma escapeChar_no_lt: "0x3C \<notin> set (escapeChar c)"
  by (simp add: escapeChar_def js_def)

lemma escapeHtml_no_lt: "0x3C \<notin> set (escapeHtml s)"
  by (induction s) (simp_all add: escapeHtml_def escapeChar_no_lt)

lemma sanitized_output_forms:
  assumes "sanitize p" "parse p markdown = Inr out"
  shows "out = [] \<or> (\<exists>text. out = escapeHtml text)
         \<or> (\<exists>html. DOMPurify_sanitize p html = Inr out)"
proof (cases "tryBlock p markdown")
  case (Inl e)
  with assms(2) show ?thesis by (auto simp: parse_def split: sum.splits)
next
  case (Inr html)
  with assms(2) have "tryBlock p markdown = Inr out" by (simp add: parse_def)
  with assms(1) show ?thesis
    by (cases markdown) (auto simp: tryBlock_def split: if_splits sum.splits)
qed


section \<open>Claims on the renderer\<close>




section \<open>The history bound is kept by every operation\<close>

lemma map_fst_setProp_present:
  "k \<in> fst ` set ps \<Longrightarrow> map fst (setProp k v ps) = map fst ps"
  by (induction ps) (auto simp: setProp_def split: if_splits)

lemma distinct_setProp: "distinct (map fst ps) \<Longrightarrow> distinct (map fst (setProp k v ps))"
proof (cases "k \<in> fst ` set ps")
  case True
  assume "distinct (map fst ps)"
  with True show ?thesis by (simp add: map_fst_setProp_present)
next
  case False
  assume d: "distinct (map fst ps)"
  obtain a b where ab: "ps = a @ b" "insertNew k v ps = a @ (k, v) # b"
    using insertNew_shape by blast
  from d False ab(1) have "distinct (map fst (a @ (k, v) # b))" by auto
  with False ab(2) show ?thesis by (simp add: setProp_def)
qed

lemma distinct_spread:
  "distinct (map fst target) \<Longrightarrow> distinct (map fst (spread target source))"
  unfolding spread_def
  by (induction source arbitrary: target) (auto simp: distinct_setProp)

lemma getProp_spread:
  "distinct (map fst source) \<Longrightarrow>
     getProp k (spread target source)
       = (case getProp k source of Some v \<Rightarrow> Some v | None \<Rightarrow> getProp k target)"
proof (induction source arbitrary: target)
  case Nil
  show ?case by (simp add: spread_def getProp_def)
next
  case (Cons p source)
  obtain k' v' where p: "p = (k', v')" by (cases p)
  from Cons.prems p have d: "distinct (map fst source)" and n: "k' \<notin> fst ` set source"
    by auto
  have s: "spread target (p # source) = spread (setProp k' v' target) source"
    by (simp add: spread_def p)
  have step: "getProp k (spread target (p # source))
      = (case getProp k source of Some v \<Rightarrow> Some v | None \<Rightarrow> getProp k (setProp k' v' target))"
    unfolding s by (rule Cons.IH [OF d])
  have head: "getProp k (p # source) = (if k = k' then Some v' else getProp k source)"
    by (simp add: getProp_def p)
  show ?case
  proof (cases "k = k'")
    case True
    from n have "getProp k' source = None"
      by (simp add: getProp_def map_of_eq_None_iff)
    with True show ?thesis
      unfolding step head by (simp add: getProp_setProp_same)
  next
    case False
    then show ?thesis
      unfolding step head by (simp add: getProp_setProp_other split: option.splits)
  qed
qed

lemma length_mapResult: "mapResult f xs = Inr ys \<Longrightarrow> length ys = length xs"
  by (induction xs arbitrary: ys) (auto split: sum.splits)

lemma trimmedRecord_ok:
  assumes "distinct (map fst saveObj)" "trimmedRecord chatId saveObj = Inr obj"
  shows "distinct (map fst obj) \<and> historyBounded obj"
proof -
  define withId where
    "withId = (if chatId \<noteq> [] then setProp (js ''chatId'') (JStr chatId) saveObj else saveObj)"
  have dw: "distinct (map fst withId)"
    using assms(1) by (simp add: withId_def distinct_setProp)
  have t: "trimmedRecord chatId saveObj =
     (case getProp (js ''chatHistory'') withId of
           Some (JArr history) \<Rightarrow>
             (case mapResult stripHeavy (sliceLast MAX_HISTORY history) of
                Inl e \<Rightarrow> Inl e
              | Inr trimmed \<Rightarrow> Inr (setProp (js ''chatHistory'') (JArr trimmed) withId))
         | _ \<Rightarrow> Inr withId)"
    unfolding trimmedRecord_def Let_def withId_def by simp
  show ?thesis
  proof (cases "getProp (js ''chatHistory'') withId")
    case None
    with assms(2) dw show ?thesis by (simp add: t historyBounded_def)
  next
    case (Some v)
    show ?thesis
    proof (cases v)
      case (JArr history)
      with Some assms(2) obtain trimmed
        where m: "mapResult stripHeavy (sliceLast MAX_HISTORY history) = Inr trimmed"
          and o: "obj = setProp (js ''chatHistory'') (JArr trimmed) withId"
        by (auto simp: t split: sum.splits)
      from m have "length trimmed = length (sliceLast MAX_HISTORY history)"
        by (rule length_mapResult)
      then have "length trimmed \<le> MAX_HISTORY" by (simp add: sliceLast_def)
      with o dw show ?thesis
        by (simp add: distinct_setProp historyBounded_def getProp_setProp_same)
    qed (use assms(2) Some dw in \<open>auto simp: t historyBounded_def\<close>)
  qed
qed

lemma mergedRecord_ok:
  assumes "distinct (map fst ps)" "historyBounded ps"
    and "distinct (map fst obj)" "historyBounded obj"
  shows "distinct (map fst (mergedRecord (JObj ps) obj)) \<and> historyBounded (mergedRecord (JObj ps) obj)"
proof -
  define merged where "merged = spread (spread [] ps) obj"
  have dm: "distinct (map fst merged)"
    unfolding merged_def by (simp add: distinct_spread)
  have gm: "getProp (js ''chatHistory'') merged
      = (case getProp (js ''chatHistory'') obj of Some v \<Rightarrow> Some v
         | None \<Rightarrow> getProp (js ''chatHistory'') ps)"
  proof -
    have "getProp (js ''chatHistory'') [] = None" by (simp add: getProp_def)
    then have "getProp (js ''chatHistory'') (spread [] ps) = getProp (js ''chatHistory'') ps"
      by (simp add: getProp_spread [OF assms(1)] split: option.splits)
    then show ?thesis
      unfolding merged_def by (simp add: getProp_spread [OF assms(3)] split: option.splits)
  qed
  have m: "mergedRecord (JObj ps) obj =
     (case getProp (js ''chatHistory'') obj of
           Some h \<Rightarrow> if truthy h then setProp (js ''chatHistory'') h merged else merged
         | None \<Rightarrow> merged)"
    unfolding mergedRecord_def Let_def merged_def ownProps.simps by (rule refl)
  show ?thesis
  proof (cases "getProp (js ''chatHistory'') obj")
    case None
    with gm assms(2) dm show ?thesis by (simp add: m historyBounded_def)
  next
    case (Some h)
    with gm assms(4) dm show ?thesis
      by (auto simp: m historyBounded_def distinct_setProp getProp_setProp_same)
  qed
qed

lemma save_keeps_history_bound:
  assumes "distinct (map fst saveObj)" "storedRecordOk st chatflowid"
    and "setLocalStorageChatflow chatflowid chatId saveObj st = Inr st'"
  shows "storedRecordOk st' chatflowid"
proof -
  from assms(3) obtain obj where t: "trimmedRecord chatId saveObj = Inr obj"
    by (auto simp: setLocalStorageChatflow_def split: sum.splits)
  then have o: "distinct (map fst obj)" "historyBounded obj"
    using trimmedRecord_ok [OF assms(1)] by simp_all
  show ?thesis
  proof (cases "byteSize (JObj obj) > MAX_BYTES")
    case True
    with assms(2,3) t show ?thesis by (simp add: setLocalStorageChatflow_def)
  next
    case small: False
    show ?thesis
    proof (cases "st (storageKey chatflowid)")
      case None
      with assms(3) t small o show ?thesis
        by (auto simp: setLocalStorageChatflow_def storedRecordOk_def)
    next
      case (Some chatDetails)
      with assms(2) obtain ps where ps: "chatDetails = JsonText (JObj ps)"
        "distinct (map fst ps)" "historyBounded ps"
        by (auto simp: storedRecordOk_def split: item.splits json.splits)
      from mergedRecord_ok [OF ps(2,3) o] assms(3) t small Some ps(1) show ?thesis
        by (auto simp: setLocalStorageChatflow_def storedRecordOk_def)
    qed
  qed
qed

lemma clear_keeps_history_bound:
  assumes "storedRecordOk st chatflowid"
  shows "storedRecordOk (removeLocalStorageChatHistory chatflowid st) chatflowid"
proof (cases "st (storageKey chatflowid)")
  case None
  then show ?thesis by (simp add: removeLocalStorageChatHistory_def storedRecordOk_def)
next
  case (Some chatDetails)
  with assms obtain ps where ps: "chatDetails = JsonText (JObj ps)"
    by (auto simp: storedRecordOk_def split: item.splits json.splits)
  have k: "js ''chatHistory'' \<noteq> js ''lead''" by (simp add: js_def)
  show ?thesis
    using Some ps k
    by (auto simp: removeLocalStorageChatHistory_def storedRecordOk_def leadOf_def
        historyBounded_def getProp_def split: option.splits)
qed

lemma emptyStorage_ok: "storedRecordOk emptyStorage chatflowid"
  by (simp add: storedRecordOk_def emptyStorage_def)

lemma operation_keeps_history_bound:
  assumes "wellFormed operation" "storedRecordOk st chatflowid"
  shows "storedRecordOk (runOperation chatflowid st operation) chatflowid"
proof (cases operation)
  case (Save chatId saveObj)
  show ?thesis
  proof (cases "setLocalStorageChatflow chatflowid chatId saveObj st")
    case (Inl e)
    with Save assms(2) show ?thesis by simp
  next
    case (Inr st')
    from assms(1) Save have "distinct (map fst saveObj)" by simp
    from save_keeps_history_bound [OF this assms(2) Inr] Save Inr show ?thesis by simp
  qed
next
  case Load
  with assms(2) show ?thesis by simp
next
  case ClearHistory
  with assms(2) show ?thesis by (simp add: clear_keeps_history_bound)
qed

lemma history_bound_reachable:
  assumes "list_all wellFormed operations"
  shows "storedRecordOk (foldl (runOperation chatflowid) emptyStorage operations) chatflowid"
proof -
  have "storedRecordOk st chatflowid \<Longrightarrow>
        storedRecordOk (foldl (runOperation chatflowid) st operations) chatflowid" for st
    using assms
  proof (induction operations arbitrary: st)
    case Nil
    then show ?case by simp
  next
    case (Cons operation operations)
    then show ?case by (simp add: operation_keeps_history_bound)
  qed
  then show ?thesis using emptyStorage_ok by blast
qed

section \<open>Claims on the persistence store\<close>

text \<open>
  Claim C6. When the record, after the history is cut and the heavy fields are removed,
  serialises to more than 2000 bytes, \<open>setLocalStorageChatflow\<close> returns without writing:
  the storage is what it was.
\<close>

theorem oversized_record_not_saved:
  assumes "trimmedRecord chatId saveObj = Inr obj"
    and "MAX_BYTES < byteSize (JObj obj)"
  shows "setLocalStorageChatflow chatflowid chatId saveObj st = Inr st"
  using assms by (simp add: setLocalStorageChatflow_def)

theorem oversized_record_not_saved_witness:
  "trimmedRecord (js ''c1'') [(js ''note'', JStr (replicate 2000 0x61))]
     = Inr [(js ''note'', JStr (replicate 2000 0x61)), (js ''chatId'', JStr (js ''c1''))]
   \<and> byteSize (JObj [(js ''note'', JStr (replicate 2000 0x61)), (js ''chatId'', JStr (js ''c1''))]) = 2025
   \<and> setLocalStorageChatflow (js ''flow'') (js ''c1'') [(js ''note'', JStr (replicate 2000 0x61))]
         (emptyStorage(storageKey (js ''flow'') \<mapsto> JsonText (JObj [(js ''chatId'', JStr (js ''c0''))])))
       = Inr (emptyStorage(storageKey (js ''flow'') \<mapsto> JsonText (JObj [(js ''chatId'', JStr (js ''c0''))])))"
proof -
  have t: "trimmedRecord (js ''c1'') [(js ''note'', JStr (replicate 2000 0x61))]
     = Inr [(js ''note'', JStr (replicate 2000 0x61)), (js ''chatId'', JStr (js ''c1''))]"
    by (simp add: trimmedRecord_def getProp_def setProp_def insertNew_def arrayIndex_def isDigit_def js_def)
  have b: "byteSize (JObj [(js ''note'', JStr (replicate 2000 0x61)), (js ''chatId'', JStr (js ''c1''))]) = 2025"
    by (simp add: json_eval)
  then have "MAX_BYTES < byteSize (JObj [(js ''note'', JStr (replicate 2000 0x61)), (js ''chatId'', JStr (js ''c1''))])"
    by (simp add: MAX_BYTES_def)
  from oversized_record_not_saved [OF t this] t b show ?thesis by simp
qed

text \<open>
  Claim C3, as amended. When the stored record has a \<open>lead\<close> field with a truthy value (any
  object or array, a non-empty string, a non-zero number, true), clearing the history and
  loading returns the object with the \<open>lead\<close> field only, its value unchanged.
\<close>

theorem lead_survives_clearHistory:
  assumes "st (storageKey chatflowid) = Some (JsonText (JObj record))"
    and "getProp (js ''lead'') record = Some lead"
    and "truthy lead"
  shows "getLocalStorageChatflow chatflowid (removeLocalStorageChatHistory chatflowid st)
           = JObj [(js ''lead'', lead)]"
  using assms
  by (simp add: removeLocalStorageChatHistory_def getLocalStorageChatflow_def leadOf_def)

theorem lead_survives_clearHistory_witness:
  "truthy (JObj [(js ''name'', JStr (js ''Ann''))])
   \<and> getProp (js ''lead'')
        [(js ''chatId'', JStr (js ''c1'')), (js ''lead'', JObj [(js ''name'', JStr (js ''Ann''))]),
         (js ''chatHistory'', JArr [JObj [(js ''message'', JStr (js ''hi''))]])]
       = Some (JObj [(js ''name'', JStr (js ''Ann''))])
   \<and> getLocalStorageChatflow (js ''flow'')
        (removeLocalStorageChatHistory (js ''flow'')
           (emptyStorage(storageKey (js ''flow'') \<mapsto> JsonText (JObj
              [(js ''chatId'', JStr (js ''c1'')), (js ''lead'', JObj [(js ''name'', JStr (js ''Ann''))]),
               (js ''chatHistory'', JArr [JObj [(js ''message'', JStr (js ''hi''))]])]))))
       = JObj [(js ''lead'', JObj [(js ''name'', JStr (js ''Ann''))])]"
proof -
  have g: "getProp (js ''lead'')
        [(js ''chatId'', JStr (js ''c1'')), (js ''lead'', JObj [(js ''name'', JStr (js ''Ann''))]),
         (js ''chatHistory'', JArr [JObj [(js ''message'', JStr (js ''hi''))]])]
       = Some (JObj [(js ''name'', JStr (js ''Ann''))])"
    by (simp add: getProp_def js_def)
  have s: "(emptyStorage(storageKey (js ''flow'') \<mapsto> JsonText (JObj
              [(js ''chatId'', JStr (js ''c1'')), (js ''lead'', JObj [(js ''name'', JStr (js ''Ann''))]),
               (js ''chatHistory'', JArr [JObj [(js ''message'', JStr (js ''hi''))]])])))
            (storageKey (js ''flow''))
          = Some (JsonText (JObj
              [(js ''chatId'', JStr (js ''c1'')), (js ''lead'', JObj [(js ''name'', JStr (js ''Ann''))]),
               (js ''chatHistory'', JArr [JObj [(js ''message'', JStr (js ''hi''))]])]))"
    by simp
  have t: "truthy (JObj [(js ''name'', JStr (js ''Ann''))])" by simp
  from lead_survives_clearHistory
    [where chatflowid = "js ''flow''" and st = "emptyStorage(storageKey (js ''flow'') \<mapsto> JsonText (JObj
              [(js ''chatId'', JStr (js ''c1'')), (js ''lead'', JObj [(js ''name'', JStr (js ''Ann''))]),
               (js ''chatHistory'', JArr [JObj [(js ''message'', JStr (js ''hi''))]])]))", OF s g t]
    g t show ?thesis by simp
qed

text \<open>
  The claim as stated fails on a stored record whose \<open>lead\<close> field is null: line 374
  tests the value of the field, the record is removed, and loading returns the empty
  object.
\<close>

theorem lead_survives_clearHistory_counterexample:
  "getProp (js ''lead'') [(js ''lead'', JNull), (js ''chatId'', JStr (js ''c1''))] = Some JNull
   \<and> getLocalStorageChatflow (js ''flow'')
        (removeLocalStorageChatHistory (js ''flow'')
           (emptyStorage(storageKey (js ''flow'') \<mapsto>
              JsonText (JObj [(js ''lead'', JNull), (js ''chatId'', JStr (js ''c1''))]))))
       = JObj []"
  by (simp add: removeLocalStorageChatHistory_def getLocalStorageChatflow_def leadOf_def
      getProp_def emptyStorage_def)

text \<open>
  Claim C10, as amended. With no record stored for the conversation, a non-empty chat
  identifier and a record (an object with one value for each field name) whose last 30
  history entries, when \<open>chatHistory\<close> is an array, are all objects, and whose saved
  form is within 2000 bytes, saving and then loading returns exactly the saved record the
  specification describes: the chat identifier merged in, the history (when it is an
  array) cut to its last 30 entries, each without the fields \<open>agentReasoning\<close>,
  \<open>sourceDocuments\<close> and \<open>artifacts\<close>, and every other field unchanged.
\<close>

theorem save_then_load:
  assumes "st (storageKey chatflowid) = None"
    and "chatId \<noteq> []"
    and "distinct (map fst saveObj)"
    and "list_all isObject (keptEntries saveObj)"
    and "byteSize (JObj (spec_savedRecord chatId saveObj)) \<le> MAX_BYTES"
  shows "\<exists>st'. setLocalStorageChatflow chatflowid chatId saveObj st = Inr st'
           \<and> getLocalStorageChatflow chatflowid st' = JObj (spec_savedRecord chatId saveObj)"
proof -
  have "trimmedRecord chatId saveObj = Inr (spec_savedRecord chatId saveObj)"
    using assms(2,3,4) by (rule trimmedRecord_spec)
  with assms(1,5) have
    "setLocalStorageChatflow chatflowid chatId saveObj st
       = Inr (st(storageKey chatflowid \<mapsto> JsonText (JObj (spec_savedRecord chatId saveObj))))"
    by (simp add: setLocalStorageChatflow_def)
  then show ?thesis by (simp add: getLocalStorageChatflow_def)
qed

theorem save_then_load_witness:
  "(emptyStorage :: storage) (storageKey (js ''flow'')) = None \<and> js ''c1'' \<noteq> []
   \<and> distinct (map fst
          [(js ''lead'', JObj [(js ''name'', JStr (js ''Ann''))]),
           (js ''chatHistory'',
            JArr (replicate 12 (JObj [(js ''message'', JStr (js ''hi''))]) @
                  replicate 30 (JObj [(js ''message'', JStr (js ''ok'')),
                                      (js ''sourceDocuments'', JArr []),
                                      (js ''type'', JStr (js ''apiMessage''))]))),
           (js ''chatId'', JStr (js ''c0''))])
   \<and> keptEntries
          [(js ''lead'', JObj [(js ''name'', JStr (js ''Ann''))]),
           (js ''chatHistory'',
            JArr (replicate 12 (JObj [(js ''message'', JStr (js ''hi''))]) @
                  replicate 30 (JObj [(js ''message'', JStr (js ''ok'')),
                                      (js ''sourceDocuments'', JArr []),
                                      (js ''type'', JStr (js ''apiMessage''))]))),
           (js ''chatId'', JStr (js ''c0''))]
       = replicate 30 (JObj [(js ''message'', JStr (js ''ok'')),
                                      (js ''sourceDocuments'', JArr []),
                                      (js ''type'', JStr (js ''apiMessage''))])
   \<and> list_all isObject (replicate 30 (JObj [(js ''message'', JStr (js ''ok'')),
                                      (js ''sourceDocuments'', JArr []),
                                      (js ''type'', JStr (js ''apiMessage''))]))
   \<and> spec_savedRecord (js ''c1'')
          [(js ''lead'', JObj [(js ''name'', JStr (js ''Ann''))]),
           (js ''chatHistory'',
            JArr (replicate 12 (JObj [(js ''message'', JStr (js ''hi''))]) @
                  replicate 30 (JObj [(js ''message'', JStr (js ''ok'')),
                                      (js ''sourceDocuments'', JArr []),
                                      (js ''type'', JStr (js ''apiMessage''))]))),
           (js ''chatId'', JStr (js ''c0''))]
       = [(js ''lead'', JObj [(js ''name'', JStr (js ''Ann''))]),
           (js ''chatHistory'',
            JArr (replicate 30 (JObj [(js ''message'', JStr (js ''ok'')),
                                      (js ''type'', JStr (js ''apiMessage''))]))),
           (js ''chatId'', JStr (js ''c1''))]
   \<and> byteSize (JObj
          [(js ''lead'', JObj [(js ''name'', JStr (js ''Ann''))]),
           (js ''chatHistory'',
            JArr (replicate 30 (JObj [(js ''message'', JStr (js ''ok'')),
                                      (js ''type'', JStr (js ''apiMessage''))]))),
           (js ''chatId'', JStr (js ''c1''))]) = 1163
   \<and> (\<exists>st'. setLocalStorageChatflow (js ''flow'') (js ''c1'')
          [(js ''lead'', JObj [(js ''name'', JStr (js ''Ann''))]),
           (js ''chatHistory'',
            JArr (replicate 12 (JObj [(js ''message'', JStr (js ''hi''))]) @
                  replicate 30 (JObj [(js ''message'', JStr (js ''ok'')),
                                      (js ''sourceDocuments'', JArr []),
                                      (js ''type'', JStr (js ''apiMessage''))]))),
           (js ''chatId'', JStr (js ''c0''))]
          emptyStorage = Inr st'
        \<and> getLocalStorageChatflow (js ''flow'') st'
          = JObj
          [(js ''lead'', JObj [(js ''name'', JStr (js ''Ann''))]),
           (js ''chatHistory'',
            JArr (replicate 30 (JObj [(js ''message'', JStr (js ''ok'')),
                                      (js ''type'', JStr (js ''apiMessage''))]))),
           (js ''chatId'', JStr (js ''c1''))])"
proof -
  let ?old = "JObj [(js ''message'', JStr (js ''hi''))]"
  let ?new = "JObj [(js ''message'', JStr (js ''ok'')), (js ''sourceDocuments'', JArr []),
                    (js ''type'', JStr (js ''apiMessage''))]"
  let ?kept = "JObj [(js ''message'', JStr (js ''ok'')), (js ''type'', JStr (js ''apiMessage''))]"
  let ?rec = "[(js ''lead'', JObj [(js ''name'', JStr (js ''Ann''))]),
               (js ''chatHistory'', JArr (replicate 12 ?old @ replicate 30 ?new)),
               (js ''chatId'', JStr (js ''c0''))]"
  let ?obj = "[(js ''lead'', JObj [(js ''name'', JStr (js ''Ann''))]),
               (js ''chatHistory'', JArr (replicate 30 ?kept)),
               (js ''chatId'', JStr (js ''c1''))]"
  have e: "(emptyStorage :: storage) (storageKey (js ''flow'')) = None"
    by (simp add: emptyStorage_def)
  have c: "js ''c1'' \<noteq> []" by (simp add: js_def)
  have d: "distinct (map fst ?rec)" by (simp add: js_def)
  have l: "spec_lastThirty (replicate 12 ?old @ replicate 30 ?new) = replicate 30 ?new"
    by (simp add: spec_lastThirty_def)
  have k: "keptEntries ?rec = replicate 30 ?new"
    unfolding keptEntries_def by (simp add: l) (simp add: js_def)
  have o: "list_all isObject (replicate 30 ?new)"
    by (simp add: list_all_replicate)
  have w: "spec_withoutHeavyFields ?new = ?kept"
    by (simp add: spec_withoutHeavyFields_def js_def)
  have r: "spec_savedRecord (js ''c1'') ?rec = ?obj"
    unfolding spec_savedRecord_def spec_savedField_def
    by (simp add: l w) (simp add: js_def)
  have "stringifyElements (replicate (Suc 29) ?kept)
        = JSON_stringify ?kept @ concat (replicate 29 (0x2C # JSON_stringify ?kept))"
    by (rule stringifyElements_replicate)
  then have s: "stringifyElements (replicate 30 ?kept)
        = JSON_stringify ?kept @ concat (replicate 29 (0x2C # JSON_stringify ?kept))"
    by simp
  have b: "byteSize (JObj ?obj) = 1163"
    unfolding byteSize_def JSON_stringify.simps stringifyProperties.simps s
    by (simp add: json_eval list_all_iff length_concat sum_list_replicate)
  then have m: "byteSize (JObj (spec_savedRecord (js ''c1'') ?rec)) \<le> MAX_BYTES"
    by (simp only: r) (simp add: MAX_BYTES_def)
  have o': "list_all isObject (keptEntries ?rec)"
    by (simp only: k o)
  from save_then_load [where st = emptyStorage and chatflowid = "js ''flow''", OF e c d o' m]
  have "\<exists>st'. setLocalStorageChatflow (js ''flow'') (js ''c1'') ?rec emptyStorage = Inr st'
        \<and> getLocalStorageChatflow (js ''flow'') st' = JObj ?obj"
    by (simp only: r)
  with e c d k o r b show ?thesis by blast
qed

text \<open>
  The claim as stated fails on a history entry that is not an object. Line 326 takes the
  entry apart with an object rest pattern, which gives a number no own property: the
  record \<open>{chatHistory: [5]}\<close> is stored and loaded as \<open>{chatHistory: [{}], chatId: 'c1'}\<close>,
  where the claim has the entry \<open>5\<close> with its three heavy fields removed, that is \<open>5\<close>.
  Both forms are well within 2000 bytes.
\<close>

theorem save_then_load_counterexample:
  "(emptyStorage :: storage) (storageKey (js ''flow'')) = None \<and> js ''c1'' \<noteq> []
   \<and> setLocalStorageChatflow (js ''flow'') (js ''c1'') [(js ''chatHistory'', JArr [JNum 5])]
        emptyStorage
      = Inr (emptyStorage(storageKey (js ''flow'') \<mapsto>
               JsonText (JObj [(js ''chatHistory'', JArr [JObj []]),
                               (js ''chatId'', JStr (js ''c1''))])))
   \<and> getLocalStorageChatflow (js ''flow'')
        (emptyStorage(storageKey (js ''flow'') \<mapsto>
               JsonText (JObj [(js ''chatHistory'', JArr [JObj []]),
                               (js ''chatId'', JStr (js ''c1''))])))
      = JObj [(js ''chatHistory'', JArr [JObj []]), (js ''chatId'', JStr (js ''c1''))]
   \<and> spec_savedRecord (js ''c1'') [(js ''chatHistory'', JArr [JNum 5])]
      = [(js ''chatHistory'', JArr [JNum 5]), (js ''chatId'', JStr (js ''c1''))]
   \<and> byteSize (JObj [(js ''chatHistory'', JArr [JObj []]), (js ''chatId'', JStr (js ''c1''))]) = 34
   \<and> byteSize (JObj [(js ''chatHistory'', JArr [JNum 5]), (js ''chatId'', JStr (js ''c1''))]) = 33"
proof -
  let ?obj = "[(js ''chatHistory'', JArr [JObj []]), (js ''chatId'', JStr (js ''c1''))]"
  have e: "(emptyStorage :: storage) (storageKey (js ''flow'')) = None"
    by (simp add: emptyStorage_def)
  have c: "js ''c1'' \<noteq> []" by (simp add: js_def)
  have t: "trimmedRecord (js ''c1'') [(js ''chatHistory'', JArr [JNum 5])] = Inr ?obj"
    using c
    by (simp add: trimmedRecord_def stripHeavy_def sliceLast_def MAX_HISTORY_def
        getProp_def setProp_def insertNew_def)
  have b: "byteSize (JObj ?obj) = 34"
    by (simp add: json_eval)
  have b': "byteSize (JObj [(js ''chatHistory'', JArr [JNum 5]), (js ''chatId'', JStr (js ''c1''))]) = 33"
    by (simp add: json_eval numberToString_def digits.simps)
  have s: "setLocalStorageChatflow (js ''flow'') (js ''c1'') [(js ''chatHistory'', JArr [JNum 5])]
             emptyStorage
           = Inr (emptyStorage(storageKey (js ''flow'') \<mapsto> JsonText (JObj ?obj)))"
    using e b by (simp add: setLocalStorageChatflow_def t MAX_BYTES_def)
  have g: "getLocalStorageChatflow (js ''flow'')
             (emptyStorage(storageKey (js ''flow'') \<mapsto> JsonText (JObj ?obj))) = JObj ?obj"
    by (simp add: getLocalStorageChatflow_def)
  have r: "spec_savedRecord (js ''c1'') [(js ''chatHistory'', JArr [JNum 5])]
           = [(js ''chatHistory'', JArr [JNum 5]), (js ''chatId'', JStr (js ''c1''))]"
    unfolding spec_savedRecord_def spec_savedField_def spec_lastThirty_def spec_withoutHeavyFields_def
    by simp
  from e c s g r b b' show ?thesis by blast
qed




text \<open>
  Claim C2, at an input where it fails. On an empty storage a history of one long message
  is saved, then a lead. Each record is within the cap when it is measured (1966 and 63
  bytes); the second call writes the merge of the stored record and the new one without
  measuring it, and the stored record has 2014 bytes. The other half of the claim holds:
  lemma \<open>history_bound_reachable\<close> shows that a stored history never has more than 30
  entries.
\<close>

theorem merged_record_exceeds_cap:
  "trimmedRecord (js ''c1'') exampleHistoryRecord
     = Inr (exampleHistoryRecord @ [(js ''chatId'', JStr (js ''c1''))])
   \<and> byteSize (JObj (exampleHistoryRecord @ [(js ''chatId'', JStr (js ''c1''))])) = 1966
   \<and> setLocalStorageChatflow (js ''flow'') (js ''c1'') exampleHistoryRecord emptyStorage
     = Inr (emptyStorage(storageKey (js ''flow'') \<mapsto>
              JsonText (JObj (exampleHistoryRecord @ [(js ''chatId'', JStr (js ''c1''))]))))
   \<and> trimmedRecord (js ''c1'') exampleLeadRecord
     = Inr (exampleLeadRecord @ [(js ''chatId'', JStr (js ''c1''))])
   \<and> byteSize (JObj (exampleLeadRecord @ [(js ''chatId'', JStr (js ''c1''))])) = 63
   \<and> setLocalStorageChatflow (js ''flow'') (js ''c1'') exampleLeadRecord
        (emptyStorage(storageKey (js ''flow'') \<mapsto>
              JsonText (JObj (exampleHistoryRecord @ [(js ''chatId'', JStr (js ''c1''))]))))
     = Inr (emptyStorage(storageKey (js ''flow'') \<mapsto>
              JsonText (JObj (exampleHistoryRecord @ [(js ''chatId'', JStr (js ''c1''))] @ exampleLeadRecord))))
   \<and> byteSize (JObj (exampleHistoryRecord @ [(js ''chatId'', JStr (js ''c1''))] @ exampleLeadRecord)) = 2014
   \<and> foldl (runOperation (js ''flow'')) emptyStorage
         [Save (js ''c1'') exampleHistoryRecord, Load, Save (js ''c1'') exampleLeadRecord]
     = emptyStorage(storageKey (js ''flow'') \<mapsto>
         JsonText (JObj (exampleHistoryRecord @ [(js ''chatId'', JStr (js ''c1''))] @ exampleLeadRecord)))"
proof -
  have c: "js ''c1'' \<noteq> []" by (simp add: js_def)
  have k: "js ''chatId'' \<noteq> js ''chatHistory''" "js ''chatId'' \<noteq> js ''lead''"
    "js ''lead'' \<noteq> js ''chatHistory''" "js ''lead'' \<noteq> js ''chatId''"
    "js ''chatHistory'' \<noteq> js ''lead''" "js ''message'' \<notin> set heavyFields"
    "js ''type'' \<notin> set heavyFields"
    by (simp_all add: js_def heavyFields_def)
  have t1: "trimmedRecord (js ''c1'') exampleHistoryRecord
     = Inr (exampleHistoryRecord @ [(js ''chatId'', JStr (js ''c1''))])"
    using c k
    by (simp add: trimmedRecord_def exampleHistoryRecord_def getProp_def setProp_def insertNew_def
        sliceLast_def MAX_HISTORY_def stripHeavy_def)
  have b1: "byteSize (JObj (exampleHistoryRecord @ [(js ''chatId'', JStr (js ''c1''))])) = 1966"
    by (simp add: exampleHistoryRecord_def json_eval)
  have s1: "setLocalStorageChatflow (js ''flow'') (js ''c1'') exampleHistoryRecord emptyStorage
     = Inr (emptyStorage(storageKey (js ''flow'') \<mapsto>
              JsonText (JObj (exampleHistoryRecord @ [(js ''chatId'', JStr (js ''c1''))]))))"
    by (simp add: setLocalStorageChatflow_def t1 b1 MAX_BYTES_def emptyStorage_def)
  have t2: "trimmedRecord (js ''c1'') exampleLeadRecord
     = Inr (exampleLeadRecord @ [(js ''chatId'', JStr (js ''c1''))])"
    using c k
    by (simp add: trimmedRecord_def exampleLeadRecord_def getProp_def setProp_def insertNew_def)
  have b2: "byteSize (JObj (exampleLeadRecord @ [(js ''chatId'', JStr (js ''c1''))])) = 63"
    by (simp add: exampleLeadRecord_def json_eval)
  have m: "mergedRecord (JObj (exampleHistoryRecord @ [(js ''chatId'', JStr (js ''c1''))]))
             (exampleLeadRecord @ [(js ''chatId'', JStr (js ''c1''))])
           = exampleHistoryRecord @ [(js ''chatId'', JStr (js ''c1''))] @ exampleLeadRecord"
    using k
    by (simp add: mergedRecord_def exampleHistoryRecord_def exampleLeadRecord_def spread_def
        getProp_def setProp_def insertNew_def)
  have s2: "setLocalStorageChatflow (js ''flow'') (js ''c1'') exampleLeadRecord
        (emptyStorage(storageKey (js ''flow'') \<mapsto>
              JsonText (JObj (exampleHistoryRecord @ [(js ''chatId'', JStr (js ''c1''))]))))
     = Inr (emptyStorage(storageKey (js ''flow'') \<mapsto>
              JsonText (JObj (exampleHistoryRecord @ [(js ''chatId'', JStr (js ''c1''))] @ exampleLeadRecord))))"
    by (simp add: setLocalStorageChatflow_def t2 b2 MAX_BYTES_def m)
  have b3: "byteSize (JObj (exampleHistoryRecord @ [(js ''chatId'', JStr (js ''c1''))] @ exampleLeadRecord)) = 2014"
    by (simp add: exampleHistoryRecord_def exampleLeadRecord_def json_eval)
  have r: "foldl (runOperation (js ''flow'')) emptyStorage
         [Save (js ''c1'') exampleHistoryRecord, Load, Save (js ''c1'') exampleLeadRecord]
     = emptyStorage(storageKey (js ''flow'') \<mapsto>
         JsonText (JObj (exampleHistoryRecord @ [(js ''chatId'', JStr (js ''c1''))] @ exampleLeadRecord)))"
    by (simp add: s1 s2)
  from t1 b1 s1 t2 b2 s2 b3 r show ?thesis by blast
qed

end
